theory Spec2Isabelle
  imports Main "HOL-Library.AList" "HOL-Library.Monad_Syntax"
begin

section \<open>Data model\<close>

text \<open>
  The return codes of \<^verbatim>\<open>ReturnCode::message\<close> (src/src/pluginmanagerprivate.cpp).
  The conversion to \<^verbatim>\<open>bool\<close> is true for \<open>SUCCESS\<close> only.
\<close>

datatype ReturnCode =
    SUCCESS
  | UNKNOWN_ERROR
  | SEARCH_NOTHING_FOUND
  | SEARCH_CANNOT_PARSE_METADATA
  | SEARCH_NAME_ALREADY_EXISTS
  | SEARCH_LISTFILES_ERROR
  | LOAD_DEPENDENCY_BAD_VERSION
  | LOAD_DEPENDENCY_NOT_FOUND
  | LOAD_DEPENDENCY_CYCLE
  | UNLOAD_NOT_ALL

definition rc_bool :: "ReturnCode \<Rightarrow> bool" where
  "rc_bool c = (c = SUCCESS)"

text \<open>The tri-state flag of \<^verbatim>\<open>private/tribool.h\<close> (the header is not in src/).\<close>

datatype TriBool = TB_indeterminate | TB_true | TB_false

record Dependency =
  dep_name :: string
  dep_version :: string

record PluginInfoStd =
  name :: string
  prettyName :: string
  version :: string
  author :: string
  url :: string
  license :: string
  copyright :: string
  dependencies :: "Dependency list"

text \<open>\<^verbatim>\<open>PluginInfoStd()\<close>: every string empty, no dependency. An empty name marks it invalid.\<close>

definition PluginInfoStd_default :: PluginInfoStd where
  "PluginInfoStd_default =
     \<lparr>name = [], prettyName = [], version = [], author = [], url = [], license = [],
      copyright = [], dependencies = []\<rparr>"

text \<open>
  A plugin object is what the factory \<^verbatim>\<open>jp_createPlugin\<close> of a library returns; it is
  identified here by the path of the library that built it.
\<close>

datatype IPlugin = IPlugin string

text \<open>
  \<^verbatim>\<open>struct Plugin\<close> (private/plugin.h is not in src/; the fields are those the code
  uses). \<open>lib\<close> is the shared-library handle: \<open>Some p\<close> when the library at path \<open>p\<close>
  is open, \<open>None\<close> when the handle is closed. \<open>iplugin\<close> is the shared pointer to the
  live object, \<open>None\<close> for a null pointer.
\<close>

record Plugin =
  path :: string
  lib :: "string option"
  info :: PluginInfoStd
  dependenciesExists :: TriBool
  graphId :: int
  isMainPlugin :: bool
  creator :: "string option"
  iplugin :: "IPlugin option"

text \<open>\<^verbatim>\<open>new Plugin()\<close>.\<close>

definition Plugin_new :: Plugin where
  "Plugin_new =
     \<lparr>path = [], lib = None, info = PluginInfoStd_default,
      dependenciesExists = TB_indeterminate, graphId = - 1, isMainPlugin = False,
      creator = None, iplugin = None\<rparr>"

text \<open>
  What the outside world sees of a run: the calls of the user's callback and the calls
  into plugin objects, in order.
\<close>

datatype event =
    Callback ReturnCode "string option"
  | Created IPlugin "IPlugin option list" bool
  | Loaded IPlugin
  | AboutToBeUnloaded IPlugin
  | MainPluginExec IPlugin

text \<open>
  \<^verbatim>\<open>struct PlugMgrPrivate\<close> (the second document of src/src/private/stringutil.h).
  \<open>pluginsMap\<close> is a \<^verbatim>\<open>std::unordered_map<std::string, PluginPtr>\<close>: an association
  list with distinct keys whose order is the iteration order of the map. That order is
  unspecified in C++, and every theorem below holds for every order. A null
  \<^verbatim>\<open>PluginPtr\<close> is in the map only between an \<^verbatim>\<open>operator[]\<close> on a missing key and
  the dereference that follows it at once, so the list holds non-null records only and
  such a dereference is the fault \<open>NullDeref\<close>. The logger and \<open>useLog\<close> are left out.
\<close>

record PlugMgrPrivate =
  pluginsMap :: "(string \<times> Plugin) list"
  loadOrderList :: "string list"
  locations :: "string list"
  mainPluginName :: string
  trace :: "event list"

datatype fault = NullDeref | OutOfBounds | UncaughtException | FuelExhausted

subsection \<open>External collaborators\<close>

text \<open>
  The JSON values of \<^verbatim>\<open>json/json.hpp\<close> (nlohmann, not in src/), with the three
  accessors \<^verbatim>\<open>parseMetadata\<close> uses: \<^verbatim>\<open>at(key)\<close> throws unless the value is an object
  with that key, \<^verbatim>\<open>get<std::string>()\<close> throws unless the value is a string, and a
  range-for visits the elements of an array, the values of an object, nothing for null
  and the value itself for any other value. \<open>None\<close> stands for the exception.
\<close>

datatype json =
    JNull
  | JBool bool
  | JNumber int
  | JString string
  | JArray "json list"
  | JObject "(string \<times> json) list"

fun json_at :: "json \<Rightarrow> string \<Rightarrow> json option" where
  "json_at (JObject kvs) k = map_of kvs k"
| "json_at _ k = None"

fun json_get_string :: "json \<Rightarrow> string option" where
  "json_get_string (JString s) = Some s"
| "json_get_string _ = None"

fun json_items :: "json \<Rightarrow> json list" where
  "json_items (JArray xs) = xs"
| "json_items (JObject kvs) = map snd kvs"
| "json_items JNull = []"
| "json_items v = [v]"

text \<open>
  What a shared library exports: the C string behind \<^verbatim>\<open>jp_name\<close>, the bytes of
  \<^verbatim>\<open>jp_metadata\<close>, and whether \<^verbatim>\<open>jp_createPlugin\<close> is there.
\<close>

record library =
  sym_jp_name :: "string option"
  sym_jp_metadata :: "string option"
  sym_jp_createPlugin :: bool

text \<open>
  The collaborators the spec puts out of scope, as parameters:
  \<^item> \<open>dlopen p\<close>: what \<^verbatim>\<open>SharedLibrary::load(p)\<close> opens, \<open>None\<close> when loading fails;
  \<^item> \<open>dlclose p\<close>: whether \<^verbatim>\<open>SharedLibrary::unload()\<close> closes the library opened from \<open>p\<close>;
  \<^item> \<open>listLibrariesInDir dir recursive\<close>: the error text (\<open>None\<close> on success) and the paths found;
  \<^item> \<open>json_parse\<close>: \<^verbatim>\<open>nlohmann::json::parse\<close>, \<open>None\<close> when it throws;
  \<^item> \<open>compatible v r\<close>: \<^verbatim>\<open>Version(v).compatible(r)\<close> of version/version.h, \<open>None\<close> when it throws.
\<close>

record env =
  dlopen :: "string \<Rightarrow> library option"
  dlclose :: "string \<Rightarrow> bool"
  listLibrariesInDir :: "string \<Rightarrow> bool \<Rightarrow> string option \<times> string list"
  json_parse :: "string \<Rightarrow> json option"
  compatible :: "string \<Rightarrow> string \<Rightarrow> bool option"

text \<open>\<^verbatim>\<open>-DJP_PLUGIN_API="1.0.0"\<close> (src/CMakeLists.txt).\<close>

definition JP_PLUGIN_API :: string where
  "JP_PLUGIN_API = ''1.0.0''"

section \<open>Metadata parsing\<close>

definition get_str :: "json \<Rightarrow> string \<Rightarrow> string option" where
  "get_str tree k = json_at tree k \<bind> json_get_string"

text \<open>The loop over \<^verbatim>\<open>jsonDep\<close>; \<open>None\<close> when an element throws.\<close>

fun parse_dependencies :: "json list \<Rightarrow> Dependency list option" where
  "parse_dependencies [] = Some []"
| "parse_dependencies (jdep # rest) =
     do {
       n \<leftarrow> get_str jdep ''name'';
       v \<leftarrow> get_str jdep ''version'';
       ds \<leftarrow> parse_dependencies rest;
       Some (\<lparr>dep_name = n, dep_version = v\<rparr> # ds)
     }"

text \<open>
  The \<^verbatim>\<open>try\<close> block of \<^verbatim>\<open>PlugMgrPrivate::parseMetadata\<close>: \<open>None\<close> when an exception
  is thrown or the API check fails, \<open>Some info\<close> at \<^verbatim>\<open>return info\<close>.
\<close>

definition parseMetadata_try :: "env \<Rightarrow> string \<Rightarrow> PluginInfoStd option" where
  "parseMetadata_try e metadata =
     do {
       tree \<leftarrow> json_parse e metadata;
       api \<leftarrow> get_str tree ''api'';
       ok \<leftarrow> compatible e api JP_PLUGIN_API;
       if ok then
         do {
           i_name \<leftarrow> get_str tree ''name'';
           i_prettyName \<leftarrow> get_str tree ''prettyName'';
           i_version \<leftarrow> get_str tree ''version'';
           i_author \<leftarrow> get_str tree ''author'';
           i_url \<leftarrow> get_str tree ''url'';
           i_license \<leftarrow> get_str tree ''license'';
           i_copyright \<leftarrow> get_str tree ''copyright'';
           jsonDep \<leftarrow> json_at tree ''dependencies'';
           deps \<leftarrow> parse_dependencies (json_items jsonDep);
           Some \<lparr>name = i_name, prettyName = i_prettyName, version = i_version,
                 author = i_author, url = i_url, license = i_license,
                 copyright = i_copyright, dependencies = deps\<rparr>
         }
       else None
     }"

definition parseMetadata :: "env \<Rightarrow> string \<Rightarrow> PluginInfoStd" where
  "parseMetadata e metadata =
     (case parseMetadata_try e metadata of
        Some i \<Rightarrow> i
      | None \<Rightarrow> PluginInfoStd_default)"

section \<open>Discovery\<close>

text \<open>\<^verbatim>\<open>if(callbackFunc) callbackFunc(code, data)\<close>; \<open>cb\<close> says whether a callback was given.\<close>

definition invoke :: "bool \<Rightarrow> ReturnCode \<Rightarrow> string option \<Rightarrow> PlugMgrPrivate \<Rightarrow> PlugMgrPrivate" where
  "invoke cb code arg st = (if cb then st\<lparr>trace := trace st @ [Callback code arg]\<rparr> else st)"

text \<open>\<^verbatim>\<open>PluginManager::hasPlugin(name)\<close>: \<^verbatim>\<open>pluginsMap.count(name) == 1\<close>.\<close>

definition hasPlugin :: "PlugMgrPrivate \<Rightarrow> string \<Rightarrow> bool" where
  "hasPlugin st n = (map_of (pluginsMap st) n \<noteq> None)"

text \<open>
  The body of the loop of \<^verbatim>\<open>PluginManager::searchForPlugins\<close> for one path; the state
  carries \<^verbatim>\<open>atLeastOneFound\<close>. A discarded candidate is destroyed with a null
  \<open>iplugin\<close>, so its destructor calls into no plugin object.
\<close>

definition searchForPlugins_body ::
  "env \<Rightarrow> bool \<Rightarrow> string \<Rightarrow> PlugMgrPrivate \<times> bool \<Rightarrow> PlugMgrPrivate \<times> bool" where
  "searchForPlugins_body e cb p = (\<lambda>(st, atLeastOneFound).
     (case dlopen e p of
        None \<Rightarrow> (st, atLeastOneFound)
      | Some l \<Rightarrow>
          (case sym_jp_name l of
             None \<Rightarrow> (st, atLeastOneFound)
           | Some nm \<Rightarrow>
               (case sym_jp_metadata l of
                  None \<Rightarrow> (st, atLeastOneFound)
                | Some md \<Rightarrow>
                    if \<not> sym_jp_createPlugin l then (st, atLeastOneFound)
                    else if hasPlugin st nm then
                      (invoke cb SEARCH_NAME_ALREADY_EXISTS (Some p) st, atLeastOneFound)
                    else
                      (let i = parseMetadata e md in
                       if name i = [] then
                         (invoke cb SEARCH_CANNOT_PARSE_METADATA (Some p) st, atLeastOneFound)
                       else
                         (st\<lparr>pluginsMap :=
                               AList.update nm
                                 (Plugin_new\<lparr>lib := Some p, path := p, info := i\<rparr>)
                                 (pluginsMap st)\<rparr>,
                          True))))))"

fun searchForPlugins_loop ::
  "env \<Rightarrow> bool \<Rightarrow> string list \<Rightarrow> PlugMgrPrivate \<times> bool \<Rightarrow> PlugMgrPrivate \<times> bool" where
  "searchForPlugins_loop e cb [] acc = acc"
| "searchForPlugins_loop e cb (p # ps) acc =
     searchForPlugins_loop e cb ps (searchForPlugins_body e cb p acc)"

definition searchForPlugins ::
  "env \<Rightarrow> string \<Rightarrow> bool \<Rightarrow> bool \<Rightarrow> PlugMgrPrivate \<Rightarrow> ReturnCode \<times> PlugMgrPrivate" where
  "searchForPlugins e pluginDir recursive cb st =
     (case listLibrariesInDir e pluginDir recursive of
        (err, libList) \<Rightarrow>
          (let st0 = (case err of
                        None \<Rightarrow> st
                      | Some msg \<Rightarrow> invoke cb SEARCH_LISTFILES_ERROR (Some msg) st)
           in
           if err \<noteq> None \<and> libList = [] then (SEARCH_LISTFILES_ERROR, st0)
           else
             (case searchForPlugins_loop e cb libList (st0, False) of
                (st1, atLeastOneFound) \<Rightarrow>
                  if atLeastOneFound then
                    (SUCCESS,
                     if pluginDir \<in> set (locations st1) then st1
                     else st1\<lparr>locations := locations st1 @ [pluginDir]\<rparr>)
                  else (SEARCH_NOTHING_FOUND, st1))))"

section \<open>Main plugin and the request broker\<close>

text \<open>\<^verbatim>\<open>PluginManager::registerMainPlugin\<close>.\<close>

definition registerMainPlugin :: "string \<Rightarrow> PlugMgrPrivate \<Rightarrow> ReturnCode \<times> PlugMgrPrivate" where
  "registerMainPlugin pluginName st =
     (if mainPluginName st = [] \<and> hasPlugin st pluginName then
        (SUCCESS,
         st\<lparr>mainPluginName := pluginName,
            pluginsMap :=
              AList.map_entry pluginName (\<lambda>p. p\<lparr>isMainPlugin := True\<rparr>) (pluginsMap st)\<rparr>)
      else (UNKNOWN_ERROR, st))"

text \<open>\<^verbatim>\<open>PluginManager::isPluginLoaded\<close>.\<close>

definition isPluginLoaded :: "PlugMgrPrivate \<Rightarrow> string \<Rightarrow> bool" where
  "isPluginLoaded st n =
     (hasPlugin st n \<and>
      (case map_of (pluginsMap st) n of
         None \<Rightarrow> False
       | Some p \<Rightarrow> lib p \<noteq> None \<and> iplugin p \<noteq> None))"

text \<open>
  \<^verbatim>\<open>PlugMgrPrivate::getNonDepPlugin\<close>. The result is the raw pointer, \<open>None\<close> for
  \<^verbatim>\<open>nullptr\<close>. \<^verbatim>\<open>pluginsMap[sender]\<close> on an unknown sender makes a null entry that is
  dereferenced at once.
\<close>

definition getNonDepPlugin :: "PlugMgrPrivate \<Rightarrow> string \<Rightarrow> string \<Rightarrow> fault + IPlugin option" where
  "getNonDepPlugin st sender pluginName =
     (case map_of (pluginsMap st) sender of
        None \<Rightarrow> Inl NullDeref
      | Some s \<Rightarrow>
          if isMainPlugin s then
            (if isPluginLoaded st pluginName then
               (case map_of (pluginsMap st) pluginName of
                  None \<Rightarrow> Inl NullDeref
                | Some t \<Rightarrow> Inr (iplugin t))
             else Inr None)
          else Inr None)"

section \<open>Dependency check\<close>

definition set_dependenciesExists :: "string \<Rightarrow> TriBool \<Rightarrow> PlugMgrPrivate \<Rightarrow> PlugMgrPrivate" where
  "set_dependenciesExists key v st =
     st\<lparr>pluginsMap :=
          AList.map_entry key (\<lambda>p. p\<lparr>dependenciesExists := v\<rparr>) (pluginsMap st)\<rparr>"

text \<open>
  \<^verbatim>\<open>PlugMgrPrivate::checkDependencies\<close>. The argument \<^verbatim>\<open>PluginPtr& plugin\<close> is a slot
  of the map, named here by its key. The recursion has no bound in the source (a plugin
  that reaches itself through its dependencies is checked again before its flag is set),
  so the model takes fuel: one unit for each nested call, \<open>Inl FuelExhausted\<close> when
  it runs out. \<open>checkDependencies_loop\<close> is the \<^verbatim>\<open>for\<close> loop over the dependencies
  from index \<open>i\<close> on, with \<open>check\<close> for the nested call.
\<close>

fun checkDependencies_loop ::
  "(string \<Rightarrow> PlugMgrPrivate \<Rightarrow> fault + ReturnCode \<times> PlugMgrPrivate) \<Rightarrow> env \<Rightarrow> bool \<Rightarrow>
   string \<Rightarrow> string \<Rightarrow> Dependency list \<Rightarrow> PlugMgrPrivate \<Rightarrow> fault + ReturnCode \<times> PlugMgrPrivate" where
  "checkDependencies_loop check e cb key ppath [] st =
     Inr (SUCCESS, set_dependenciesExists key TB_true st)"
| "checkDependencies_loop check e cb key ppath (d # ds) st =
     (case map_of (pluginsMap st) (dep_name d) of
        None \<Rightarrow>
          Inr (LOAD_DEPENDENCY_NOT_FOUND,
               invoke cb LOAD_DEPENDENCY_NOT_FOUND (Some ppath)
                 (set_dependenciesExists key TB_false st))
      | Some dp \<Rightarrow>
          (case compatible e (version (info dp)) (dep_version d) of
             None \<Rightarrow> Inl UncaughtException
           | Some False \<Rightarrow>
               Inr (LOAD_DEPENDENCY_BAD_VERSION,
                    invoke cb LOAD_DEPENDENCY_BAD_VERSION (Some ppath)
                      (set_dependenciesExists key TB_false st))
           | Some True \<Rightarrow>
               (case check (dep_name d) st of
                  Inl f \<Rightarrow> Inl f
                | Inr (retCode, st') \<Rightarrow>
                    if \<not> rc_bool retCode then Inr (retCode, st')
                    else checkDependencies_loop check e cb key ppath ds st')))"

primrec checkDependencies ::
  "nat \<Rightarrow> env \<Rightarrow> bool \<Rightarrow> string \<Rightarrow> PlugMgrPrivate \<Rightarrow> fault + ReturnCode \<times> PlugMgrPrivate" where
  "checkDependencies 0 e cb key st = Inl FuelExhausted"
| "checkDependencies (Suc fuel) e cb key st =
     (case map_of (pluginsMap st) key of
        None \<Rightarrow> Inl NullDeref
      | Some plugin \<Rightarrow>
          if dependenciesExists plugin \<noteq> TB_indeterminate then
            Inr (if dependenciesExists plugin = TB_true then SUCCESS
                 else if \<not> hasPlugin st (name (info plugin)) then LOAD_DEPENDENCY_NOT_FOUND
                 else LOAD_DEPENDENCY_BAD_VERSION,
                 st)
          else
            checkDependencies_loop (checkDependencies fuel e cb) e cb key (path plugin)
              (dependencies (info plugin)) st)"

section \<open>Loading one plugin\<close>

text \<open>The loop of \<^verbatim>\<open>PlugMgrPrivate::loadPlugin\<close> that fills \<^verbatim>\<open>depPlugins\<close>.\<close>

fun depPlugins :: "PlugMgrPrivate \<Rightarrow> Dependency list \<Rightarrow> fault + IPlugin option list" where
  "depPlugins st [] = Inr []"
| "depPlugins st (d # ds) =
     (case map_of (pluginsMap st) (dep_name d) of
        None \<Rightarrow> Inl NullDeref
      | Some dp \<Rightarrow>
          (case depPlugins st ds of
             Inl f \<Rightarrow> Inl f
           | Inr ptrs \<Rightarrow> Inr (iplugin dp # ptrs)))"

text \<open>
  \<^verbatim>\<open>PlugMgrPrivate::loadPlugin(PluginPtr&)\<close>, the slot named by its key. The factory is
  read from the open handle: with the handle closed, or without the symbol, there is
  nothing to call. The factory returns a new object (\<^verbatim>\<open>JP_DECLARE_PLUGIN\<close> in
  src/include/iplugin.h), on which \<^verbatim>\<open>loaded()\<close> is called.
\<close>

definition PlugMgrPrivate_loadPlugin :: "env \<Rightarrow> string \<Rightarrow> PlugMgrPrivate \<Rightarrow> fault + PlugMgrPrivate" where
  "PlugMgrPrivate_loadPlugin e key st =
     (case map_of (pluginsMap st) key of
        None \<Rightarrow> Inl NullDeref
      | Some plugin \<Rightarrow>
          (case lib plugin of
             None \<Rightarrow> Inl NullDeref
           | Some lp \<Rightarrow>
               (case dlopen e lp of
                  None \<Rightarrow> Inl NullDeref
                | Some l \<Rightarrow>
                    if \<not> sym_jp_createPlugin l then Inl NullDeref
                    else
                      (case depPlugins st (dependencies (info plugin)) of
                         Inl f \<Rightarrow> Inl f
                       | Inr ptrs \<Rightarrow>
                           Inr (st\<lparr>pluginsMap :=
                                      AList.map_entry key
                                        (\<lambda>p. p\<lparr>creator := Some lp, iplugin := Some (IPlugin lp)\<rparr>)
                                        (pluginsMap st),
                                    trace :=
                                      trace st @
                                        [Created (IPlugin lp) ptrs (isMainPlugin plugin),
                                         Loaded (IPlugin lp)]\<rparr>)))))"

text \<open>\<^verbatim>\<open>PlugMgrPrivate::loadPluginsInOrder\<close>; \<^verbatim>\<open>pluginsMap.at(name)\<close> throws on a missing key.\<close>

fun loadPluginsInOrder :: "env \<Rightarrow> string list \<Rightarrow> PlugMgrPrivate \<Rightarrow> fault + PlugMgrPrivate" where
  "loadPluginsInOrder e [] st = Inr st"
| "loadPluginsInOrder e (n # ns) st =
     (if \<not> hasPlugin st n then Inl UncaughtException
      else
        (case PlugMgrPrivate_loadPlugin e n st of
           Inl f \<Rightarrow> Inl f
         | Inr st' \<Rightarrow> loadPluginsInOrder e ns st'))"

text \<open>\<^verbatim>\<open>PluginManager::loadPlugin(const std::string&)\<close>.\<close>

definition loadPlugin ::
  "nat \<Rightarrow> env \<Rightarrow> string \<Rightarrow> PlugMgrPrivate \<Rightarrow> fault + bool \<times> PlugMgrPrivate" where
  "loadPlugin fuel e pluginName st =
     (case map_of (pluginsMap st) pluginName of
        None \<Rightarrow> Inr (False, st)
      | Some plugin \<Rightarrow>
          if lib plugin \<noteq> None then Inr (True, st)
          else
            (case checkDependencies fuel e False pluginName st of
               Inl f \<Rightarrow> Inl f
             | Inr (retCode, st') \<Rightarrow>
                 if \<not> rc_bool retCode then Inr (False, st')
                 else
                   (case PlugMgrPrivate_loadPlugin e pluginName st' of
                      Inl f \<Rightarrow> Inl f
                    | Inr st'' \<Rightarrow> Inr (True, st''))))"

section \<open>Unloading\<close>

text \<open>
  \<^verbatim>\<open>PlugMgrPrivate::unloadPlugin(PluginPtr&)\<close> on one record: the calls into the plugin
  object, and the result \<^verbatim>\<open>!isLoaded\<close>. The record is destroyed by \<^verbatim>\<open>plugin.reset()\<close>
  with \<open>iplugin\<close> already null, so \<^verbatim>\<open>Plugin::~Plugin\<close> (src/src/plugin.cpp) makes no
  second call of \<^verbatim>\<open>aboutToBeUnloaded\<close>.
\<close>

definition PlugMgrPrivate_unloadPlugin :: "env \<Rightarrow> Plugin \<Rightarrow> event list \<times> bool" where
  "PlugMgrPrivate_unloadPlugin e plugin =
     ((case iplugin plugin of
         None \<Rightarrow> []
       | Some obj \<Rightarrow> [AboutToBeUnloaded obj]),
      (case lib plugin of
         None \<Rightarrow> True
       | Some lp \<Rightarrow> dlclose e lp))"

text \<open>
  The first loop of \<^verbatim>\<open>PlugMgrPrivate::unloadPluginsInOrder\<close>, over the reversed load
  order; the state carries \<^verbatim>\<open>allUnloaded\<close>. \<^verbatim>\<open>pluginsMap[*it]\<close> on a name that is not
  in the map hands a null pointer to \<^verbatim>\<open>unloadPlugin\<close>.
\<close>

fun unloadPluginsInOrder_loop ::
  "env \<Rightarrow> string list \<Rightarrow> PlugMgrPrivate \<times> bool \<Rightarrow> fault + PlugMgrPrivate \<times> bool" where
  "unloadPluginsInOrder_loop e [] acc = Inr acc"
| "unloadPluginsInOrder_loop e (n # ns) (st, allUnloaded) =
     (case map_of (pluginsMap st) n of
        None \<Rightarrow> Inl NullDeref
      | Some plugin \<Rightarrow>
          (case PlugMgrPrivate_unloadPlugin e plugin of
             (evs, ok) \<Rightarrow>
               unloadPluginsInOrder_loop e ns
                 (st\<lparr>trace := trace st @ evs,
                     pluginsMap := AList.delete n (pluginsMap st)\<rparr>,
                  allUnloaded \<and> ok)))"

text \<open>The second loop: \<^verbatim>\<open>while(!pluginsMap.empty())\<close>, always on \<^verbatim>\<open>pluginsMap.begin()\<close>.\<close>

fun unloadPluginsInOrder_rest ::
  "env \<Rightarrow> (string \<times> Plugin) list \<Rightarrow> PlugMgrPrivate \<times> bool \<Rightarrow> PlugMgrPrivate \<times> bool" where
  "unloadPluginsInOrder_rest e [] (st, allUnloaded) = (st\<lparr>pluginsMap := []\<rparr>, allUnloaded)"
| "unloadPluginsInOrder_rest e ((k, plugin) # m) (st, allUnloaded) =
     (case PlugMgrPrivate_unloadPlugin e plugin of
        (evs, ok) \<Rightarrow>
          unloadPluginsInOrder_rest e m
            (st\<lparr>trace := trace st @ evs, pluginsMap := m\<rparr>, allUnloaded \<and> ok))"

definition unloadPluginsInOrder :: "env \<Rightarrow> PlugMgrPrivate \<Rightarrow> fault + bool \<times> PlugMgrPrivate" where
  "unloadPluginsInOrder e st =
     (case unloadPluginsInOrder_loop e (rev (loadOrderList st)) (st, True) of
        Inl f \<Rightarrow> Inl f
      | Inr (st1, all1) \<Rightarrow>
          (case unloadPluginsInOrder_rest e (pluginsMap st1) (st1, all1) of
             (st2, all2) \<Rightarrow> Inr (all2, st2\<lparr>locations := []\<rparr>)))"

text \<open>\<^verbatim>\<open>PluginManager::unloadPlugins\<close>.\<close>

definition unloadPlugins :: "env \<Rightarrow> bool \<Rightarrow> PlugMgrPrivate \<Rightarrow> fault + ReturnCode \<times> PlugMgrPrivate" where
  "unloadPlugins e cb st =
     (case unloadPluginsInOrder e st of
        Inl f \<Rightarrow> Inl f
      | Inr (ok, st') \<Rightarrow>
          if \<not> ok then Inr (UNLOAD_NOT_ALL, invoke cb UNLOAD_NOT_ALL None st')
          else Inr (SUCCESS, st'))"

section \<open>Dependency graph\<close>

text \<open>
  \<^verbatim>\<open>Graph::Node\<close> (private/graph.h is not in src/): the name the node points to, the
  indices of its parents in the node list, and its mark. A new node is unmarked and
  has no parent.
\<close>

datatype Flags = UNMARKED | MARK_TEMP | MARK_PERMANENT

record Node =
  node_name :: string
  parentNodes :: "int list"
  flag :: Flags

definition Node_new :: "string \<Rightarrow> Node" where
  "Node_new n = \<lparr>node_name = n, parentNodes = [], flag = UNMARKED\<rparr>"

text \<open>
  \<^verbatim>\<open>Graph::visitNode\<close>. The state is \<^verbatim>\<open>_nodeList\<close> (with the marks) and the output
  list; a node is named by its index. \<^verbatim>\<open>_nodeList[parentId]\<close> outside the list is the
  fault \<open>OutOfBounds\<close>. The fuel bounds the depth of the recursion; the theorems show
  that more fuel than nodes is always enough. \<open>visitNode_parents\<close> is the \<^verbatim>\<open>for\<close> loop
  over \<^verbatim>\<open>node.parentNodes\<close>, with \<open>visit\<close> for the nested call.
\<close>

fun visitNode_parents ::
  "(nat \<Rightarrow> Node list \<times> string list \<Rightarrow> fault + bool \<times> Node list \<times> string list) \<Rightarrow>
   int list \<Rightarrow> Node list \<times> string list \<Rightarrow> fault + bool \<times> Node list \<times> string list" where
  "visitNode_parents visit [] s = Inr (True, s)"
| "visitNode_parents visit (parentId # rest) s =
     (if parentId < 0 \<or> int (length (fst s)) \<le> parentId then Inl OutOfBounds
      else
        (case visit (nat parentId) s of
           Inl f \<Rightarrow> Inl f
         | Inr (ok, s') \<Rightarrow>
             if \<not> ok then Inr (False, s') else visitNode_parents visit rest s'))"

primrec visitNode ::
  "nat \<Rightarrow> nat \<Rightarrow> Node list \<times> string list \<Rightarrow> fault + bool \<times> Node list \<times> string list" where
  "visitNode 0 i s = Inl FuelExhausted"
| "visitNode (Suc fuel) i s =
     (case s of
        (nodes, l) \<Rightarrow>
          if flag (nodes ! i) = MARK_PERMANENT then Inr (True, s)
          else if flag (nodes ! i) = MARK_TEMP then Inr (False, s)
          else
            (case visitNode_parents (visitNode fuel) (parentNodes (nodes ! i))
                    (nodes[i := (nodes ! i)\<lparr>flag := MARK_TEMP\<rparr>], l) of
               Inl f \<Rightarrow> Inl f
             | Inr (ok, nodes', l') \<Rightarrow>
                 if \<not> ok then Inr (False, nodes', l')
                 else
                   Inr (True,
                        nodes'[i := (nodes' ! i)\<lparr>flag := MARK_PERMANENT\<rparr>],
                        l' @ [node_name (nodes' ! i)])))"

text \<open>
  \<^verbatim>\<open>Graph::topologicalSort\<close>: the loop over the nodes by index; the result is the
  \<^verbatim>\<open>error\<close> flag and the returned list.
\<close>

fun topologicalSort_loop ::
  "nat \<Rightarrow> nat list \<Rightarrow> Node list \<times> string list \<Rightarrow> fault + bool \<times> string list" where
  "topologicalSort_loop fuel [] s = Inr (False, snd s)"
| "topologicalSort_loop fuel (i # rest) s =
     (if flag (fst s ! i) = UNMARKED then
        (case visitNode fuel i s of
           Inl f \<Rightarrow> Inl f
         | Inr (ok, s') \<Rightarrow>
             if \<not> ok then Inr (True, []) else topologicalSort_loop fuel rest s')
      else topologicalSort_loop fuel rest s)"

definition topologicalSort :: "nat \<Rightarrow> Node list \<Rightarrow> fault + bool \<times> string list" where
  "topologicalSort fuel nodeList =
     topologicalSort_loop fuel [0..<length nodeList] (nodeList, [])"

section \<open>Loading all plugins\<close>

definition set_graphId :: "string \<Rightarrow> int \<Rightarrow> PlugMgrPrivate \<Rightarrow> PlugMgrPrivate" where
  "set_graphId key v st =
     st\<lparr>pluginsMap := AList.map_entry key (\<lambda>p. p\<lparr>graphId := v\<rparr>) (pluginsMap st)\<rparr>"

text \<open>
  The first loop of \<^verbatim>\<open>PluginManager::loadPlugins\<close>, over the keys of the map in
  iteration order. The result is \<open>Some retCode\<close> at the early \<^verbatim>\<open>return retCode\<close>, and
  \<open>None\<close> when the loop ends, with the state and the node list.
\<close>

fun loadPlugins_check ::
  "nat \<Rightarrow> env \<Rightarrow> bool \<Rightarrow> bool \<Rightarrow> string list \<Rightarrow> PlugMgrPrivate \<times> Node list \<Rightarrow>
   fault + ReturnCode option \<times> PlugMgrPrivate \<times> Node list" where
  "loadPlugins_check fuel e tryToContinue cb [] (st, nodeList) = Inr (None, st, nodeList)"
| "loadPlugins_check fuel e tryToContinue cb (k # ks) (st, nodeList) =
     (case checkDependencies fuel e cb k (set_graphId k (- 1) st) of
        Inl f \<Rightarrow> Inl f
      | Inr (retCode, st') \<Rightarrow>
          if \<not> tryToContinue \<and> \<not> rc_bool retCode then Inr (Some retCode, st', nodeList)
          else
            (case map_of (pluginsMap st') k of
               None \<Rightarrow> Inl NullDeref
             | Some plugin \<Rightarrow>
                 if dependenciesExists plugin = TB_true then
                   loadPlugins_check fuel e tryToContinue cb ks
                     (set_graphId k (int (length nodeList)) st', nodeList @ [Node_new k])
                 else loadPlugins_check fuel e tryToContinue cb ks (st', nodeList)))"

text \<open>
  The second loop: the inner loop reads the \<open>graphId\<close> of every dependency
  (\<^verbatim>\<open>pluginsMap[name]->graphId\<close>, a null dereference when the name is not in the map),
  the outer loop appends them to the parents of the plugin's node.
\<close>

fun loadPlugins_parentIds :: "PlugMgrPrivate \<Rightarrow> Dependency list \<Rightarrow> fault + int list" where
  "loadPlugins_parentIds st [] = Inr []"
| "loadPlugins_parentIds st (d # ds) =
     (case map_of (pluginsMap st) (dep_name d) of
        None \<Rightarrow> Inl NullDeref
      | Some dp \<Rightarrow>
          (case loadPlugins_parentIds st ds of
             Inl f \<Rightarrow> Inl f
           | Inr ids \<Rightarrow> Inr (graphId dp # ids)))"

fun loadPlugins_fill ::
  "PlugMgrPrivate \<Rightarrow> (string \<times> Plugin) list \<Rightarrow> Node list \<Rightarrow> fault + Node list" where
  "loadPlugins_fill st [] nodeList = Inr nodeList"
| "loadPlugins_fill st ((k, plugin) # m) nodeList =
     (if graphId plugin \<noteq> - 1 then
        (case loadPlugins_parentIds st (dependencies (info plugin)) of
           Inl f \<Rightarrow> Inl f
         | Inr ids \<Rightarrow>
             if ids \<noteq> [] \<and> (graphId plugin < 0 \<or> int (length nodeList) \<le> graphId plugin)
             then Inl OutOfBounds
             else
               loadPlugins_fill st m
                 (nodeList[nat (graphId plugin) :=
                    (nodeList ! nat (graphId plugin))
                      \<lparr>parentNodes := parentNodes (nodeList ! nat (graphId plugin)) @ ids\<rparr>]))
      else loadPlugins_fill st m nodeList)"

text \<open>
  \<^verbatim>\<open>PluginManager::loadPlugins\<close>. One fuel bounds every recursion of the call. The
  load order is assigned before the \<^verbatim>\<open>error\<close> flag is read.
  \<^verbatim>\<open>pluginsMap.at(mainPluginName)\<close> throws on a missing key, and the call of
  \<^verbatim>\<open>mainPluginExec\<close> dereferences the main plugin's \<open>iplugin\<close>.
\<close>

definition loadPlugins ::
  "nat \<Rightarrow> env \<Rightarrow> bool \<Rightarrow> bool \<Rightarrow> PlugMgrPrivate \<Rightarrow> fault + ReturnCode \<times> PlugMgrPrivate" where
  "loadPlugins fuel e tryToContinue cb st =
     (case loadPlugins_check fuel e tryToContinue cb (map fst (pluginsMap st)) (st, []) of
        Inl f \<Rightarrow> Inl f
      | Inr (Some retCode, st1, nodeList) \<Rightarrow> Inr (retCode, st1)
      | Inr (None, st1, nodeList) \<Rightarrow>
          (case loadPlugins_fill st1 (pluginsMap st1) nodeList of
             Inl f \<Rightarrow> Inl f
           | Inr nodeList' \<Rightarrow>
               (case topologicalSort fuel nodeList' of
                  Inl f \<Rightarrow> Inl f
                | Inr (error, order) \<Rightarrow>
                    (let st2 = st1\<lparr>loadOrderList := order\<rparr> in
                     if error then
                       Inr (LOAD_DEPENDENCY_CYCLE, invoke cb LOAD_DEPENDENCY_CYCLE None st2)
                     else
                       (case loadPluginsInOrder e (loadOrderList st2) st2 of
                          Inl f \<Rightarrow> Inl f
                        | Inr st3 \<Rightarrow>
                            if mainPluginName st3 \<noteq> [] then
                              (case map_of (pluginsMap st3) (mainPluginName st3) of
                                 None \<Rightarrow> Inl UncaughtException
                               | Some mp \<Rightarrow>
                                   (case iplugin mp of
                                      None \<Rightarrow> Inl NullDeref
                                    | Some obj \<Rightarrow>
                                        Inr (SUCCESS,
                                             st3\<lparr>trace := trace st3 @ [MainPluginExec obj]\<rparr>)))
                            else Inr (SUCCESS, st3))))))"

section \<open>An example world\<close>

text \<open>
  Three libraries in \<open>/plugins\<close>: \<open>A\<close> without dependency, \<open>B\<close> that needs \<open>A\<close>,
  and \<open>C\<close> that needs \<open>Z\<close>, which no library provides. A second directory \<open>/more\<close>
  holds another library that calls itself \<open>A\<close>, with broken metadata, and a library
  \<open>D\<close> with broken metadata. A third directory \<open>/dup\<close> holds two libraries that both
  call themselves \<open>E\<close>. Two versions are compatible here when they are equal.
\<close>

definition ex_metadata :: "string \<Rightarrow> string \<Rightarrow> (string \<times> string) list \<Rightarrow> json" where
  "ex_metadata api n deps =
     JObject
       [(''api'', JString api), (''name'', JString n), (''prettyName'', JString n),
        (''version'', JString ''1.0.0''), (''author'', JString []), (''url'', JString []),
        (''license'', JString ''MIT''), (''copyright'', JString []),
        (''dependencies'',
         JArray (map (\<lambda>(d, v). JObject [(''name'', JString d), (''version'', JString v)]) deps))]"

definition ex_library :: "string \<Rightarrow> string \<Rightarrow> library" where
  "ex_library n md =
     \<lparr>sym_jp_name = Some n, sym_jp_metadata = Some md, sym_jp_createPlugin = True\<rparr>"

definition ex_env :: env where
  "ex_env =
     \<lparr>dlopen =
        map_of
          [(''/plugins/libA.so'', ex_library ''A'' ''meta A''),
           (''/plugins/libB.so'', ex_library ''B'' ''meta B''),
           (''/plugins/libC.so'', ex_library ''C'' ''meta C''),
           (''/more/libA2.so'', ex_library ''A'' ''not json''),
           (''/more/libD.so'', ex_library ''D'' ''not json''),
           (''/dup/libE1.so'', ex_library ''E'' ''meta E''),
           (''/dup/libE2.so'', ex_library ''E'' ''meta E'')],
      dlclose = (\<lambda>p. True),
      listLibrariesInDir =
        (\<lambda>dir recursive.
           if dir = ''/plugins'' then
             (None, [''/plugins/libA.so'', ''/plugins/libB.so'', ''/plugins/libC.so''])
           else if dir = ''/more'' then (None, [''/more/libA2.so'', ''/more/libD.so''])
           else if dir = ''/dup'' then (None, [''/dup/libE1.so'', ''/dup/libE2.so''])
           else (Some ''No such file or directory'', [])),
      json_parse =
        map_of
          [(''meta A'', ex_metadata ''1.0.0'' ''A'' []),
           (''meta B'', ex_metadata ''1.0.0'' ''B'' [(''A'', ''1.0.0'')]),
           (''meta C'', ex_metadata ''1.0.0'' ''C'' [(''Z'', ''1.0.0'')]),
           (''meta E'', ex_metadata ''1.0.0'' ''E'' [])],
      compatible = (\<lambda>v r. Some (v = r))\<rparr>"

definition PlugMgrPrivate_new :: PlugMgrPrivate where
  "PlugMgrPrivate_new =
     \<lparr>pluginsMap = [], loadOrderList = [], locations = [], mainPluginName = [], trace = []\<rparr>"

definition ex_discovered :: PlugMgrPrivate where
  "ex_discovered = snd (searchForPlugins ex_env ''/plugins'' False True PlugMgrPrivate_new)"

definition ex_main :: PlugMgrPrivate where
  "ex_main = snd (registerMainPlugin ''A'' ex_discovered)"

definition ex_loaded :: PlugMgrPrivate where
  "ex_loaded =
     (case loadPlugins 10 ex_env True True ex_main of
        Inr (rc, st) \<Rightarrow> st
      | Inl f \<Rightarrow> ex_main)"

section \<open>Vocabulary of the theorems\<close>

text \<open>The objects on which \<^verbatim>\<open>loaded()\<close> is called in a trace, in order.\<close>

definition loaded_calls :: "event list \<Rightarrow> IPlugin list" where
  "loaded_calls t = [obj. Loaded obj \<leftarrow> t]"

text \<open>
  \<open>keeps f s s'\<close>: from \<open>s\<close> to \<open>s'\<close> the map has the same keys in the same order, every
  record has the same value under \<open>f\<close>, the load order, the locations and the main
  plugin's name are the same, and the trace has grown by events that are not calls of
  \<^verbatim>\<open>loaded()\<close>.
\<close>

definition keeps :: "(Plugin \<Rightarrow> 'a) \<Rightarrow> PlugMgrPrivate \<Rightarrow> PlugMgrPrivate \<Rightarrow> bool" where
  "keeps f s s' \<longleftrightarrow>
     map (\<lambda>kp. (fst kp, f (snd kp))) (pluginsMap s') = map (\<lambda>kp. (fst kp, f (snd kp))) (pluginsMap s) \<and>
     loadOrderList s' = loadOrderList s \<and> locations s' = locations s \<and>
     mainPluginName s' = mainPluginName s \<and>
     (\<exists>t. trace s' = trace s @ t \<and> loaded_calls t = [])"

definition ex_unloaded :: PlugMgrPrivate where
  "ex_unloaded =
     (case unloadPlugins ex_env True ex_loaded of
        Inr (rc, st) \<Rightarrow> st
      | Inl f \<Rightarrow> ex_loaded)"

text \<open>
  Metadata that cannot be accepted: parsing throws, or one of the eight string keys is
  missing or not a string, or \<open>dependencies\<close> is missing, or it is an array with an
  element that lacks a string \<open>name\<close> or \<open>version\<close>, or the \<open>api\<close> version is not
  compatible with \<open>JP_PLUGIN_API\<close>.
\<close>

definition metadata_invalid :: "env \<Rightarrow> string \<Rightarrow> bool" where
  "metadata_invalid e md \<longleftrightarrow>
     (case json_parse e md of
        None \<Rightarrow> True
      | Some tree \<Rightarrow>
          (\<exists>k \<in> set [''api'', ''name'', ''prettyName'', ''version'', ''author'', ''url'',
                      ''license'', ''copyright'']. get_str tree k = None) \<or>
          json_at tree ''dependencies'' = None \<or>
          (\<exists>ds. json_at tree ''dependencies'' = Some (JArray ds) \<and>
                (\<exists>d \<in> set ds. get_str d ''name'' = None \<or> get_str d ''version'' = None)) \<or>
          (\<exists>api. get_str tree ''api'' = Some api \<and> compatible e api JP_PLUGIN_API \<noteq> Some True))"

text \<open>
  The graph of a node list: an edge goes from a node to each of its parents. A cycle is
  a node that reaches itself along at least one edge.
\<close>

definition edges :: "Node list \<Rightarrow> (nat \<times> nat) set" where
  "edges nodes =
     {(i, j). i < length nodes \<and> j < length nodes \<and> int j \<in> set (parentNodes (nodes ! i))}"

definition has_cycle :: "Node list \<Rightarrow> bool" where
  "has_cycle nodes \<longleftrightarrow> (\<exists>i. (i, i) \<in> (edges nodes)\<^sup>+)"

text \<open>Every parent index is an index of the list.\<close>

definition parents_in_range :: "Node list \<Rightarrow> bool" where
  "parents_in_range nodes \<longleftrightarrow>
     (\<forall>n \<in> set nodes. \<forall>p \<in> set (parentNodes n). 0 \<le> p \<and> p < int (length nodes))"

text \<open>What the marking never changes: the names and the parents.\<close>

definition shape :: "Node list \<Rightarrow> (string \<times> int list) list" where
  "shape nodes = map (\<lambda>n. (node_name n, parentNodes n)) nodes"

definition unmarked :: "Node list \<Rightarrow> nat set" where
  "unmarked nodes = {i. i < length nodes \<and> flag (nodes ! i) = UNMARKED}"

text \<open>\<open>precedes a b xs\<close>: \<open>a\<close> stands in \<open>xs\<close> at a smaller index than \<open>b\<close>.\<close>

definition precedes :: "'a \<Rightarrow> 'a \<Rightarrow> 'a list \<Rightarrow> bool" where
  "precedes a b xs \<longleftrightarrow> (\<exists>k1 k2. k1 < k2 \<and> k2 < length xs \<and> xs ! k1 = a \<and> xs ! k2 = b)"

text \<open>
  The invariant of the sort: the output lists the names of the permanently marked
  nodes \<open>idxs\<close>, each once, and every parent of a listed node is listed before it.
\<close>

definition sorted_so_far :: "Node list \<Rightarrow> string list \<Rightarrow> nat list \<Rightarrow> bool" where
  "sorted_so_far nodes l idxs \<longleftrightarrow>
     l = map (\<lambda>i. node_name (nodes ! i)) idxs \<and> distinct idxs \<and>
     set idxs = {i. i < length nodes \<and> flag (nodes ! i) = MARK_PERMANENT} \<and>
     (\<forall>i \<in> set idxs. \<forall>p \<in> set (parentNodes (nodes ! i)).
        0 \<le> p \<and> nat p < length nodes \<and> precedes (nat p) i idxs)"

text \<open>
  What a successful visit does: it extends the list of permanent nodes, leaves the
  node permanent, keeps the shape, and leaves the temporary marks as they were.
\<close>

definition visit_ok ::
  "Node list \<times> string list \<Rightarrow> nat list \<Rightarrow> Node list \<times> string list \<Rightarrow> nat list \<Rightarrow> bool" where
  "visit_ok s idxs s' new \<longleftrightarrow>
     sorted_so_far (fst s') (snd s') (idxs @ new) \<and> shape (fst s') = shape (fst s) \<and>
     (\<forall>k < length (fst s). flag (fst s' ! k) = MARK_TEMP \<longleftrightarrow> flag (fst s ! k) = MARK_TEMP)"

text \<open>A node list with the cycle \<open>A\<close>, \<open>B\<close>, \<open>C\<close> and a node \<open>D\<close> outside it.\<close>

definition ex_cycle :: "Node list" where
  "ex_cycle =
     [(Node_new ''A'')\<lparr>parentNodes := [1]\<rparr>,
      (Node_new ''B'')\<lparr>parentNodes := [2]\<rparr>,
      (Node_new ''C'')\<lparr>parentNodes := [0]\<rparr>,
      Node_new ''D'']"

text \<open>\<open>field_of f st k\<close>: the value under \<open>f\<close> of the record under key \<open>k\<close>.\<close>

definition field_of :: "(Plugin \<Rightarrow> 'a) \<Rightarrow> PlugMgrPrivate \<Rightarrow> string \<Rightarrow> 'a option" where
  "field_of f st k = map_option f (map_of (pluginsMap st) k)"

text \<open>
  The invariant of the first loop of \<open>loadPlugins\<close> over the keys \<open>D\<close> done so far:
  the nodes are new, the \<open>graphId\<close> of a done key is \<open>-1\<close> or the index of the node
  with its name, and every node carries the name of a done key whose \<open>graphId\<close> is the
  node's index.
\<close>

definition graph_ids_ok :: "PlugMgrPrivate \<Rightarrow> Node list \<Rightarrow> string set \<Rightarrow> bool" where
  "graph_ids_ok st nodeList D \<longleftrightarrow>
     (\<forall>n \<in> set nodeList. flag n = UNMARKED \<and> parentNodes n = []) \<and>
     (\<forall>k \<in> D. field_of graphId st k = Some (- 1) \<or>
                (\<exists>i < length nodeList. field_of graphId st k = Some (int i) \<and>
                                       node_name (nodeList ! i) = k)) \<and>
     (\<forall>i < length nodeList. node_name (nodeList ! i) \<in> D \<and>
                            field_of graphId st (node_name (nodeList ! i)) = Some (int i))"

text \<open>\<open>grows a b\<close>: same nodes with the same names and marks, and no parent lost.\<close>

definition grows :: "Node list \<Rightarrow> Node list \<Rightarrow> bool" where
  "grows nodes nodes' \<longleftrightarrow>
     length nodes' = length nodes \<and>
     (\<forall>i < length nodes. node_name (nodes' ! i) = node_name (nodes ! i) \<and>
        flag (nodes' ! i) = flag (nodes ! i) \<and>
        set (parentNodes (nodes ! i)) \<subseteq> set (parentNodes (nodes' ! i)))"

text \<open>\<open>live st n\<close>: the record under \<open>n\<close> holds the object its own library built.\<close>

definition live :: "PlugMgrPrivate \<Rightarrow> string \<Rightarrow> bool" where
  "live st n \<longleftrightarrow>
     (\<exists>p lp. map_of (pluginsMap st) n = Some p \<and> lib p = Some lp \<and> iplugin p = Some (IPlugin lp))"

text \<open>
  The state after one more search, in \<open>/dup\<close>, once everything was unloaded: the map
  holds the record \<open>E\<close>, and the load order is still the one of the earlier load.
\<close>

definition ex_stale :: PlugMgrPrivate where
  "ex_stale = snd (searchForPlugins ex_env ''/dup'' False True ex_unloaded)"

text \<open>
  \<open>respects_dependencies st\<close>: the stored load order has no repetition, every name in it
  is a key of the map, and every declared dependency of the record under that name
  stands in the load order at a smaller index.
\<close>

definition respects_dependencies :: "PlugMgrPrivate \<Rightarrow> bool" where
  "respects_dependencies st \<longleftrightarrow>
     distinct (loadOrderList st) \<and>
     (\<forall>P \<in> set (loadOrderList st). \<exists>p. map_of (pluginsMap st) P = Some p \<and>
        (\<forall>d \<in> set (dependencies (info p)). precedes (dep_name d) P (loadOrderList st)))"

section \<open>Properties of discovery\<close>

lemma map_of_update_Some:
  "map_of (AList.update k v al) n = Some q \<longleftrightarrow> (if n = k then q = v else map_of al n = Some q)"
  by (auto simp: update_conv')

text \<open>One candidate either leaves the map as it is, or adds a record under a new name.\<close>

lemma searchForPlugins_body_cases:
  assumes "searchForPlugins_body e cb p (st, f) = (st', f')"
  shows "(pluginsMap st' = pluginsMap st \<and> f' = f \<and> loadOrderList st' = loadOrderList st \<and>
          locations st' = locations st \<and> (\<exists>t. trace st' = trace st @ t)) \<or>
         (\<exists>l nm md. dlopen e p = Some l \<and> sym_jp_name l = Some nm \<and> sym_jp_metadata l = Some md \<and>
            sym_jp_createPlugin l \<and> \<not> hasPlugin st nm \<and> name (parseMetadata e md) \<noteq> [] \<and> f' \<and>
            st' = st\<lparr>pluginsMap := AList.update nm
                    (Plugin_new\<lparr>lib := Some p, path := p, info := parseMetadata e md\<rparr>) (pluginsMap st)\<rparr>)"
  using assms
  by (auto simp: searchForPlugins_body_def invoke_def Let_def split: option.splits if_splits)

lemma searchForPlugins_body_keeps:
  assumes "searchForPlugins_body e cb p (st, f) = (st', f')" "map_of (pluginsMap st) n = Some q"
  shows "map_of (pluginsMap st') n = Some q"
  using searchForPlugins_body_cases[OF assms(1)] assms(2)
  by (auto simp: update_conv' hasPlugin_def)

lemma searchForPlugins_body_new:
  assumes "searchForPlugins_body e cb p (st, f) = (st', f')" "map_of (pluginsMap st') n = Some q"
  shows "map_of (pluginsMap st) n = Some q \<or>
         (\<not> hasPlugin st n \<and> (\<exists>l md. dlopen e p = Some l \<and> sym_jp_name l = Some n \<and>
             sym_jp_metadata l = Some md \<and> sym_jp_createPlugin l \<and> name (parseMetadata e md) \<noteq> [] \<and>
             q = Plugin_new\<lparr>lib := Some p, path := p, info := parseMetadata e md\<rparr>))"
  using searchForPlugins_body_cases[OF assms(1)] assms(2)
  by (auto simp: map_of_update_Some split: if_splits)

lemma searchForPlugins_body_distinct:
  assumes "searchForPlugins_body e cb p (st, f) = (st', f')" "distinct (map fst (pluginsMap st))"
  shows "distinct (map fst (pluginsMap st'))"
  using searchForPlugins_body_cases[OF assms(1)] assms(2)
  by (auto simp: distinct_update)

lemma searchForPlugins_body_trace:
  assumes "searchForPlugins_body e cb p (st, f) = (st', f')"
  shows "\<exists>t. trace st' = trace st @ t"
  using searchForPlugins_body_cases[OF assms(1)] by auto

lemma searchForPlugins_body_frame:
  assumes "searchForPlugins_body e cb p (st, f) = (st', f')"
  shows "loadOrderList st' = loadOrderList st \<and> locations st' = locations st \<and>
         mainPluginName st' = mainPluginName st"
  using assms
  by (auto simp: searchForPlugins_body_def invoke_def Let_def split: option.splits if_splits)

lemma searchForPlugins_loop_append:
  "searchForPlugins_loop e cb (xs @ ys) acc =
   searchForPlugins_loop e cb ys (searchForPlugins_loop e cb xs acc)"
  by (induction xs arbitrary: acc) auto

lemma searchForPlugins_loop_keeps:
  "searchForPlugins_loop e cb ps (st, f) = (st', f') \<Longrightarrow> map_of (pluginsMap st) n = Some q \<Longrightarrow>
   map_of (pluginsMap st') n = Some q"
proof (induction ps arbitrary: st f)
  case Nil
  then show ?case by simp
next
  case (Cons p ps)
  obtain st1 f1 where b: "searchForPlugins_body e cb p (st, f) = (st1, f1)" by force
  with Cons.prems(1) have l: "searchForPlugins_loop e cb ps (st1, f1) = (st', f')" by simp
  from searchForPlugins_body_keeps[OF b Cons.prems(2)] Cons.IH[OF l] show ?case by blast
qed

lemma searchForPlugins_loop_distinct:
  "searchForPlugins_loop e cb ps (st, f) = (st', f') \<Longrightarrow> distinct (map fst (pluginsMap st)) \<Longrightarrow>
   distinct (map fst (pluginsMap st'))"
proof (induction ps arbitrary: st f)
  case Nil
  then show ?case by simp
next
  case (Cons p ps)
  obtain st1 f1 where b: "searchForPlugins_body e cb p (st, f) = (st1, f1)" by force
  with Cons.prems(1) have l: "searchForPlugins_loop e cb ps (st1, f1) = (st', f')" by simp
  from searchForPlugins_body_distinct[OF b Cons.prems(2)] Cons.IH[OF l] show ?case by blast
qed

lemma searchForPlugins_loop_trace:
  "searchForPlugins_loop e cb ps (st, f) = (st', f') \<Longrightarrow> \<exists>t. trace st' = trace st @ t"
proof (induction ps arbitrary: st f)
  case Nil
  then show ?case by simp
next
  case (Cons p ps)
  obtain st1 f1 where b: "searchForPlugins_body e cb p (st, f) = (st1, f1)" by force
  with Cons.prems(1) have l: "searchForPlugins_loop e cb ps (st1, f1) = (st', f')" by simp
  from searchForPlugins_body_trace[OF b] Cons.IH[OF l] show ?case by auto
qed

lemma searchForPlugins_loop_frame:
  "searchForPlugins_loop e cb ps (st, f) = (st', f') \<Longrightarrow>
   loadOrderList st' = loadOrderList st \<and> locations st' = locations st \<and>
   mainPluginName st' = mainPluginName st"
proof (induction ps arbitrary: st f)
  case Nil
  then show ?case by simp
next
  case (Cons p ps)
  obtain st1 f1 where b: "searchForPlugins_body e cb p (st, f) = (st1, f1)" by force
  with Cons.prems(1) have l: "searchForPlugins_loop e cb ps (st1, f1) = (st', f')" by simp
  from searchForPlugins_body_frame[OF b] Cons.IH[OF l] show ?case by auto
qed

text \<open>Every record in the map after the loop was there before, or was built from a path of the list.\<close>

lemma searchForPlugins_loop_new:
  "searchForPlugins_loop e cb ps (st, f) = (st', f') \<Longrightarrow> map_of (pluginsMap st') n = Some q \<Longrightarrow>
   map_of (pluginsMap st) n = Some q \<or>
   (\<not> hasPlugin st n \<and> (\<exists>p l md. p \<in> set ps \<and> dlopen e p = Some l \<and> sym_jp_name l = Some n \<and>
       sym_jp_metadata l = Some md \<and> sym_jp_createPlugin l \<and> name (parseMetadata e md) \<noteq> [] \<and>
       q = Plugin_new\<lparr>lib := Some p, path := p, info := parseMetadata e md\<rparr>))"
proof (induction ps arbitrary: st f)
  case Nil
  then show ?case by simp
next
  case (Cons p ps)
  obtain st1 f1 where b: "searchForPlugins_body e cb p (st, f) = (st1, f1)" by force
  with Cons.prems(1) have l: "searchForPlugins_loop e cb ps (st1, f1) = (st', f')" by simp
  have mono: "hasPlugin st n \<Longrightarrow> hasPlugin st1 n"
    using searchForPlugins_body_keeps[OF b] by (auto simp: hasPlugin_def)
  from Cons.IH[OF l Cons.prems(2)] show ?case
  proof
    assume "map_of (pluginsMap st1) n = Some q"
    from searchForPlugins_body_new[OF b this] show ?thesis by auto
  next
    assume "\<not> hasPlugin st1 n \<and> (\<exists>p l md. p \<in> set ps \<and> dlopen e p = Some l \<and> sym_jp_name l = Some n \<and>
       sym_jp_metadata l = Some md \<and> sym_jp_createPlugin l \<and> name (parseMetadata e md) \<noteq> [] \<and>
       q = Plugin_new\<lparr>lib := Some p, path := p, info := parseMetadata e md\<rparr>)"
    with mono show ?thesis by auto
  qed
qed

text \<open>
  C9. A record that \<open>searchForPlugins\<close> admits (it is in the map after the call under a
  name that was not there before) was built from one of the listed paths, its library
  handle is open on that path and its plugin object is null: the plugin is discovered,
  not live, and its library already counts as loaded.
\<close>

theorem searchForPlugins_admitted_lib_loaded:
  assumes "searchForPlugins e pluginDir recursive cb st = (rc, st')"
      and "map_of (pluginsMap st') n = Some q"
      and "\<not> hasPlugin st n"
  shows "\<exists>p. p \<in> set (snd (listLibrariesInDir e pluginDir recursive)) \<and> dlopen e p \<noteq> None \<and>
             lib q = Some p \<and> iplugin q = None \<and> \<not> isPluginLoaded st' n"
proof -
  obtain err libList where ls: "listLibrariesInDir e pluginDir recursive = (err, libList)" by force
  define st0 where
    "st0 = (case err of None \<Rightarrow> st | Some msg \<Rightarrow> invoke cb SEARCH_LISTFILES_ERROR (Some msg) st)"
  have m0: "pluginsMap st0 = pluginsMap st"
    by (auto simp: st0_def invoke_def split: option.splits)
  obtain st1 f1 where lp: "searchForPlugins_loop e cb libList (st0, False) = (st1, f1)" by force
  have m1: "pluginsMap st' = pluginsMap st1 \<or> pluginsMap st' = pluginsMap st0"
    using assms(1) ls lp by (auto simp: searchForPlugins_def Let_def st0_def split: if_splits)
  have "map_of (pluginsMap st1) n = Some q"
    using m1 assms(2,3) m0 by (auto simp: hasPlugin_def)
  from searchForPlugins_loop_new[OF lp this] assms(3) m0
  obtain p l md where "p \<in> set libList" "dlopen e p = Some l"
    "q = Plugin_new\<lparr>lib := Some p, path := p, info := parseMetadata e md\<rparr>"
    by (auto simp: hasPlugin_def)
  then show ?thesis using ls assms(2)
    by (auto simp: Plugin_new_def isPluginLoaded_def)
qed

theorem searchForPlugins_admitted_lib_loaded_witness:
  "searchForPlugins ex_env ''/plugins'' False True PlugMgrPrivate_new = (SUCCESS, ex_discovered) \<and>
   \<not> hasPlugin PlugMgrPrivate_new ''B'' \<and>
   (\<exists>q. map_of (pluginsMap ex_discovered) ''B'' = Some q \<and>
        lib q = Some ''/plugins/libB.so'' \<and> iplugin q = None) \<and>
   \<not> isPluginLoaded ex_discovered ''B''"
proof -
  have a: "searchForPlugins ex_env ''/plugins'' False True PlugMgrPrivate_new = (SUCCESS, ex_discovered)"
    by code_simp
  have b: "map_of (pluginsMap ex_discovered) ''B'' = Some (the (map_of (pluginsMap ex_discovered) ''B''))"
    by code_simp
  have c: "\<not> hasPlugin PlugMgrPrivate_new ''B''"
    by code_simp
  have d: "lib (the (map_of (pluginsMap ex_discovered) ''B'')) = Some ''/plugins/libB.so''"
    by code_simp
  from searchForPlugins_admitted_lib_loaded[OF a b c] a b c d show ?thesis
    by auto
qed

section \<open>Properties of the request broker\<close>

text \<open>
  C6. When the sender names a record of the map, \<open>getNonDepPlugin\<close> returns; the pointer
  is non-null exactly when the sender's record is the main plugin and the target is
  live (in the map, library open, object non-null); a non-null result is the target's
  object.
\<close>

theorem getNonDepPlugin_privilege:
  assumes "map_of (pluginsMap st) sender = Some s"
  shows "\<exists>r. getNonDepPlugin st sender pluginName = Inr r \<and>
           (r \<noteq> None \<longleftrightarrow>
              isMainPlugin s \<and>
              (\<exists>t. map_of (pluginsMap st) pluginName = Some t \<and> lib t \<noteq> None \<and> iplugin t \<noteq> None)) \<and>
           (r \<noteq> None \<longrightarrow> (\<exists>t. map_of (pluginsMap st) pluginName = Some t \<and> iplugin t = r))"
  using assms
  by (auto simp: getNonDepPlugin_def isPluginLoaded_def hasPlugin_def split: option.splits)

theorem getNonDepPlugin_privilege_witness:
  "(\<exists>s. map_of (pluginsMap ex_loaded) ''A'' = Some s \<and> isMainPlugin s) \<and>
   getNonDepPlugin ex_loaded ''A'' ''B'' = Inr (Some (IPlugin ''/plugins/libB.so'')) \<and>
   getNonDepPlugin ex_loaded ''A'' ''C'' = Inr None \<and>
   getNonDepPlugin ex_loaded ''B'' ''A'' = Inr None"
proof -
  have a: "map_of (pluginsMap ex_loaded) ''A'' = Some (the (map_of (pluginsMap ex_loaded) ''A''))"
    by code_simp
  have b: "isMainPlugin (the (map_of (pluginsMap ex_loaded) ''A''))"
    by code_simp
  have c: "map_of (pluginsMap ex_loaded) ''B'' = Some (the (map_of (pluginsMap ex_loaded) ''B''))"
    by code_simp
  have d: "lib (the (map_of (pluginsMap ex_loaded) ''B'')) \<noteq> None"
          "iplugin (the (map_of (pluginsMap ex_loaded) ''B'')) = Some (IPlugin ''/plugins/libB.so'')"
    by code_simp+
  have e: "getNonDepPlugin ex_loaded ''A'' ''C'' = Inr None"
          "getNonDepPlugin ex_loaded ''B'' ''A'' = Inr None"
    by code_simp+
  from getNonDepPlugin_privilege[OF a, of "''B''"] b c d
  have "getNonDepPlugin ex_loaded ''A'' ''B'' = Inr (Some (IPlugin ''/plugins/libB.so''))"
    by auto
  with a b e show ?thesis by auto
qed

section \<open>Properties of the dependency check\<close>

text \<open>
  C3. The cached answer for a flag that is \<open>no\<close> is not the code the first check
  returned. In the example world \<open>C\<close> needs \<open>Z\<close>, which is not in the map: the first
  check sets the flag to \<open>no\<close> and returns \<open>LOAD_DEPENDENCY_NOT_FOUND\<close>; the second
  check, on the state the first one left, returns \<open>LOAD_DEPENDENCY_BAD_VERSION\<close>,
  because the cached branch looks up the plugin's own name in the map, not the name of
  the missing dependency.
\<close>

theorem checkDependencies_cached_code_differs:
  "(case checkDependencies 3 ex_env True ''C'' ex_discovered of
      Inr (rc1, st1) \<Rightarrow>
        rc1 = LOAD_DEPENDENCY_NOT_FOUND \<and>
        dependenciesExists (the (map_of (pluginsMap st1) ''C'')) = TB_false \<and>
        checkDependencies 3 ex_env True ''C'' st1 = Inr (LOAD_DEPENDENCY_BAD_VERSION, st1)
    | Inl f \<Rightarrow> False)"
  by code_simp

section \<open>Properties of loading one plugin\<close>

text \<open>
  C4. \<open>loadPlugin\<close> on a plugin that discovery has just admitted: the plugin has no
  dependency and no object, its library handle is open, and the call returns true with
  the state unchanged. No factory is called, and \<open>isPluginLoaded\<close> still says no.
\<close>

theorem loadPlugin_discovered_is_noop:
  "hasPlugin ex_discovered ''A'' \<and>
   dependencies (info (the (map_of (pluginsMap ex_discovered) ''A''))) = [] \<and>
   iplugin (the (map_of (pluginsMap ex_discovered) ''A'')) = None \<and>
   loadPlugin 3 ex_env ''A'' ex_discovered = Inr (True, ex_discovered) \<and>
   \<not> isPluginLoaded ex_discovered ''A''"
  by code_simp

section \<open>Frame properties of the dependency check\<close>

lemma keeps_refl: "keeps f s s"
  by (simp add: keeps_def loaded_calls_def)

lemma keeps_trans: "keeps f s s' \<Longrightarrow> keeps f s' s'' \<Longrightarrow> keeps f s s''"
  by (auto simp: keeps_def loaded_calls_def)

lemma map_entry_view:
  "(\<And>p. f (g p) = f p) \<Longrightarrow>
   map (\<lambda>kp. (fst kp, f (snd kp))) (AList.map_entry key g m) = map (\<lambda>kp. (fst kp, f (snd kp))) m"
  by (induction m) auto

lemma keeps_invoke: "keeps f s (invoke cb code arg s)"
  by (simp add: keeps_def invoke_def loaded_calls_def)

lemma keeps_set_dependenciesExists:
  "(\<And>p v. f (p\<lparr>dependenciesExists := v\<rparr>) = f p) \<Longrightarrow> keeps f s (set_dependenciesExists key v s)"
  by (simp add: keeps_def set_dependenciesExists_def map_entry_view loaded_calls_def)

lemma checkDependencies_loop_keeps:
  assumes f: "\<And>p v. f (p\<lparr>dependenciesExists := v\<rparr>) = f p"
      and chk: "\<And>k s r s'. check k s = Inr (r, s') \<Longrightarrow> keeps f s s'"
  shows "checkDependencies_loop check e cb key ppath ds st = Inr (rc, st') \<Longrightarrow> keeps f st st'"
proof (induction ds arbitrary: st)
  case Nil
  then show ?case using keeps_set_dependenciesExists[OF f] by auto
next
  case (Cons d ds)
  show ?case
  proof (cases "map_of (pluginsMap st) (dep_name d)")
    case None
    with Cons.prems show ?thesis
      using keeps_trans[OF keeps_set_dependenciesExists[OF f] keeps_invoke] by auto
  next
    case (Some dp)
    show ?thesis
    proof (cases "compatible e (version (info dp)) (dep_version d)")
      case None
      with Some Cons.prems show ?thesis by simp
    next
      case c: (Some b)
      show ?thesis
      proof (cases b)
        case False
        with Some c Cons.prems show ?thesis
          using keeps_trans[OF keeps_set_dependenciesExists[OF f] keeps_invoke] by auto
      next
        case True
        with Some c Cons.prems obtain r s1 where r: "check (dep_name d) st = Inr (r, s1)"
          by (auto split: sum.splits)
        show ?thesis
        proof (cases "rc_bool r")
          case False
          with Some c True r Cons.prems chk[OF r] show ?thesis by auto
        next
          case t: True
          with Some c True r Cons.prems
          have "checkDependencies_loop check e cb key ppath ds s1 = Inr (rc, st')" by simp
          from keeps_trans[OF chk[OF r] Cons.IH[OF this]] show ?thesis .
        qed
      qed
    qed
  qed
qed

lemma checkDependencies_keeps:
  assumes f: "\<And>p v. f (p\<lparr>dependenciesExists := v\<rparr>) = f p"
  shows "checkDependencies fuel e cb key st = Inr (rc, st') \<Longrightarrow> keeps f st st'"
proof (induction fuel arbitrary: key st rc st')
  case 0
  then show ?case by simp
next
  case (Suc fuel)
  from Suc.prems obtain plugin where p: "map_of (pluginsMap st) key = Some plugin"
    by (auto split: option.splits)
  show ?case
  proof (cases "dependenciesExists plugin \<noteq> TB_indeterminate")
    case True
    with p Suc.prems show ?thesis by (auto simp: keeps_refl)
  next
    case False
    with p Suc.prems
    have "checkDependencies_loop (checkDependencies fuel e cb) e cb key (path plugin)
            (dependencies (info plugin)) st = Inr (rc, st')" by simp
    from checkDependencies_loop_keeps[OF f _ this] Suc.IH show ?thesis by blast
  qed
qed

section \<open>Properties of unloading\<close>

lemma unloadPlugin_events:
  "fst (PlugMgrPrivate_unloadPlugin e p) = [AboutToBeUnloaded obj. Some obj \<leftarrow> [iplugin p]]"
  by (auto simp: PlugMgrPrivate_unloadPlugin_def split: option.splits)

lemma delete_filter: "AList.delete n m = filter (\<lambda>kv. fst kv \<noteq> n) m"
  by (induction m) auto

lemma map_of_filter_other:
  "k \<noteq> n \<Longrightarrow> map_of (filter (\<lambda>kv. fst kv \<noteq> n) m) k = map_of m k"
  by (induction m) auto

lemma unloadPluginsInOrder_loop_result:
  "unloadPluginsInOrder_loop e ns (st, a) = Inr (st1, a1) \<Longrightarrow>
   distinct ns \<and> set ns \<subseteq> fst ` set (pluginsMap st) \<and>
   pluginsMap st1 = filter (\<lambda>kv. fst kv \<notin> set ns) (pluginsMap st) \<and>
   trace st1 = trace st @
     [AboutToBeUnloaded obj. n \<leftarrow> ns, Some p \<leftarrow> [map_of (pluginsMap st) n], Some obj \<leftarrow> [iplugin p]] \<and>
   loadOrderList st1 = loadOrderList st \<and> locations st1 = locations st \<and>
   mainPluginName st1 = mainPluginName st"
proof (induction ns arbitrary: st a)
  case Nil
  then show ?case by simp
next
  case (Cons n ns)
  from Cons.prems obtain p where p: "map_of (pluginsMap st) n = Some p"
    by (auto split: option.splits)
  obtain evs ok where u: "PlugMgrPrivate_unloadPlugin e p = (evs, ok)" by force
  define stm where "stm = st\<lparr>trace := trace st @ evs, pluginsMap := AList.delete n (pluginsMap st)\<rparr>"
  from Cons.prems p u have l: "unloadPluginsInOrder_loop e ns (stm, a \<and> ok) = Inr (st1, a1)"
    by (simp add: stm_def)
  note ih = Cons.IH[OF l]
  have evs: "evs = [AboutToBeUnloaded obj. Some obj \<leftarrow> [iplugin p]]"
    using unloadPlugin_events[of e p] u by simp
  have pm: "pluginsMap stm = filter (\<lambda>kv. fst kv \<noteq> n) (pluginsMap st)"
    by (simp add: stm_def delete_filter)
  have nin: "n \<notin> set ns"
    using ih pm by auto
  have same: "\<And>k. k \<in> set ns \<Longrightarrow> map_of (pluginsMap stm) k = map_of (pluginsMap st) k"
    using nin pm map_of_filter_other by metis
  have tr: "[AboutToBeUnloaded obj. k \<leftarrow> ns, Some q \<leftarrow> [map_of (pluginsMap stm) k], Some obj \<leftarrow> [iplugin q]]
          = [AboutToBeUnloaded obj. k \<leftarrow> ns, Some q \<leftarrow> [map_of (pluginsMap st) k], Some obj \<leftarrow> [iplugin q]]"
    using same by (intro arg_cong[where f=concat] map_cong) auto
  have key: "n \<in> fst ` set (pluginsMap st)"
    using p by (metis map_of_eq_None_iff option.distinct(1))
  show ?case
    using ih nin key p evs tr pm
    by (auto simp: stm_def conj_commute)
qed

lemma unloadPluginsInOrder_loop_total:
  "distinct ns \<Longrightarrow> set ns \<subseteq> fst ` set (pluginsMap st) \<Longrightarrow>
   \<exists>st1 a1. unloadPluginsInOrder_loop e ns (st, a) = Inr (st1, a1)"
proof (induction ns arbitrary: st a)
  case Nil
  then show ?case by simp
next
  case (Cons n ns)
  from Cons.prems obtain p where p: "map_of (pluginsMap st) n = Some p"
    by (metis insert_subset list.simps(15) map_of_eq_None_iff not_Some_eq)
  obtain evs ok where u: "PlugMgrPrivate_unloadPlugin e p = (evs, ok)" by force
  define stm where "stm = st\<lparr>trace := trace st @ evs, pluginsMap := AList.delete n (pluginsMap st)\<rparr>"
  have "set ns \<subseteq> fst ` set (pluginsMap stm)"
  proof
    fix x assume x: "x \<in> set ns"
    with Cons.prems have "x \<noteq> n" "x \<in> fst ` set (pluginsMap st)" by auto
    then show "x \<in> fst ` set (pluginsMap stm)"
      by (force simp: stm_def delete_filter)
  qed
  with Cons.IH[of stm "a \<and> ok"] Cons.prems(1) p u show ?case
    by (auto simp: stm_def)
qed

lemma unloadPluginsInOrder_rest_result:
  "unloadPluginsInOrder_rest e m (st, a) = (st2, a2) \<Longrightarrow>
   pluginsMap st2 = [] \<and>
   trace st2 = trace st @ [AboutToBeUnloaded obj. (k, p) \<leftarrow> m, Some obj \<leftarrow> [iplugin p]] \<and>
   loadOrderList st2 = loadOrderList st \<and> locations st2 = locations st \<and>
   mainPluginName st2 = mainPluginName st"
proof (induction m arbitrary: st a)
  case Nil
  then show ?case by auto
next
  case (Cons kp m)
  obtain k p where kp: "kp = (k, p)" by force
  obtain evs ok where u: "PlugMgrPrivate_unloadPlugin e p = (evs, ok)" by force
  have evs: "evs = [AboutToBeUnloaded obj. Some obj \<leftarrow> [iplugin p]]"
    using unloadPlugin_events[of e p] u by simp
  from Cons.prems kp u
  have "unloadPluginsInOrder_rest e m (st\<lparr>trace := trace st @ evs, pluginsMap := m\<rparr>, a \<and> ok) = (st2, a2)"
    by simp
  from Cons.IH[OF this] evs kp show ?case by auto
qed

lemma stragglers_filter:
  "[AboutToBeUnloaded obj. (k, p) \<leftarrow> filter (\<lambda>kv. fst kv \<notin> S) m, Some obj \<leftarrow> [iplugin p]] =
   [AboutToBeUnloaded obj. (k, p) \<leftarrow> m, k \<notin> S, Some obj \<leftarrow> [iplugin p]]"
  by (induction m) auto

text \<open>
  When \<open>unloadPluginsInOrder\<close> returns, the calls it has made are:
  \<^verbatim>\<open>aboutToBeUnloaded()\<close> on the object of every record of the load order that has one,
  in the reverse of the load order, and only then on the objects of the records that
  are not in the load order, in the iteration order of the map.
\<close>

lemma unloadPluginsInOrder_calls:
  assumes "unloadPluginsInOrder e st = Inr (ok, st')"
  shows "trace st' = trace st @
           [AboutToBeUnloaded obj. n \<leftarrow> rev (loadOrderList st), Some p \<leftarrow> [map_of (pluginsMap st) n],
              Some obj \<leftarrow> [iplugin p]] @
           [AboutToBeUnloaded obj. (k, p) \<leftarrow> pluginsMap st, k \<notin> set (loadOrderList st),
              Some obj \<leftarrow> [iplugin p]]"
proof -
  from assms obtain st1 a1 where
    l: "unloadPluginsInOrder_loop e (rev (loadOrderList st)) (st, True) = Inr (st1, a1)"
    by (auto simp: unloadPluginsInOrder_def split: sum.splits)
  obtain st2 a2 where r: "unloadPluginsInOrder_rest e (pluginsMap st1) (st1, a1) = (st2, a2)" by force
  from assms l r have st': "st' = st2\<lparr>locations := []\<rparr>"
    by (auto simp: unloadPluginsInOrder_def)
  note L = unloadPluginsInOrder_loop_result[OF l]
  note R = unloadPluginsInOrder_rest_result[OF r]
  have eq1: "pluginsMap st1 = filter (\<lambda>kv. fst kv \<notin> set (loadOrderList st)) (pluginsMap st)"
    using L by simp
  have "[AboutToBeUnloaded obj. (k, p) \<leftarrow> pluginsMap st1, Some obj \<leftarrow> [iplugin p]] =
        [AboutToBeUnloaded obj. (k, p) \<leftarrow> pluginsMap st, k \<notin> set (loadOrderList st), Some obj \<leftarrow> [iplugin p]]"
    unfolding eq1 by (rule stragglers_filter)
  with L R st' show ?thesis by simp
qed

lemma PlugMgrPrivate_loadPlugin_order:
  "PlugMgrPrivate_loadPlugin e key st = Inr st' \<Longrightarrow> loadOrderList st' = loadOrderList st"
  by (auto simp: PlugMgrPrivate_loadPlugin_def split: option.splits if_splits sum.splits)

lemma loadPlugin_order:
  assumes "loadPlugin fuel e n st = Inr (b, st')"
  shows "loadOrderList st' = loadOrderList st"
proof -
  have k: "\<And>rc s. checkDependencies fuel e False n st = Inr (rc, s) \<Longrightarrow> loadOrderList s = loadOrderList st"
    using checkDependencies_keeps[where f="\<lambda>p. ()"] by (auto simp: keeps_def)
  show ?thesis
    using assms k PlugMgrPrivate_loadPlugin_order
    by (auto simp: loadPlugin_def split: option.splits if_splits sum.splits)
qed

lemma searchForPlugins_order:
  "loadOrderList (snd (searchForPlugins e pluginDir recursive cb st)) = loadOrderList st"
proof -
  obtain err libList where ls: "listLibrariesInDir e pluginDir recursive = (err, libList)" by force
  define st0 where
    "st0 = (case err of None \<Rightarrow> st | Some msg \<Rightarrow> invoke cb SEARCH_LISTFILES_ERROR (Some msg) st)"
  have m0: "loadOrderList st0 = loadOrderList st"
    by (auto simp: st0_def invoke_def split: option.splits)
  obtain st1 f1 where lp: "searchForPlugins_loop e cb libList (st0, False) = (st1, f1)" by force
  from searchForPlugins_loop_frame[OF lp] m0 have "loadOrderList st1 = loadOrderList st" by simp
  with ls lp m0 show ?thesis
    by (auto simp: searchForPlugins_def Let_def st0_def[symmetric])
qed

text \<open>
  When \<open>unloadPlugins\<close> returns, the map and the locations are empty and the load
  order is what it was. It returns whenever the names of the load order are distinct
  keys of the map. Discovery, \<open>registerMainPlugin\<close> and \<open>loadPlugin\<close> leave the load
  order alone as well: only \<open>loadPlugins\<close> assigns it.
\<close>

lemma unloadPlugins_returns_cleared:
  "(\<forall>rc st'. unloadPlugins e cb st = Inr (rc, st') \<longrightarrow>
       pluginsMap st' = [] \<and> locations st' = [] \<and> loadOrderList st' = loadOrderList st) \<and>
   (distinct (loadOrderList st) \<and> set (loadOrderList st) \<subseteq> fst ` set (pluginsMap st) \<longrightarrow>
       (\<exists>rc st'. unloadPlugins e cb st = Inr (rc, st'))) \<and>
   loadOrderList (snd (searchForPlugins e pluginDir recursive cb st)) = loadOrderList st \<and>
   loadOrderList (snd (registerMainPlugin n st)) = loadOrderList st \<and>
   (\<forall>b st'. loadPlugin fuel e n st = Inr (b, st') \<longrightarrow> loadOrderList st' = loadOrderList st)"
proof (intro conjI allI impI)
  fix rc st'
  assume a: "unloadPlugins e cb st = Inr (rc, st')"
  then obtain ok s where u: "unloadPluginsInOrder e st = Inr (ok, s)"
    and s: "st' = s \<or> st' = invoke cb UNLOAD_NOT_ALL None s"
    by (auto simp: unloadPlugins_def split: sum.splits if_splits)
  from u obtain st1 a1 where
    l: "unloadPluginsInOrder_loop e (rev (loadOrderList st)) (st, True) = Inr (st1, a1)"
    by (auto simp: unloadPluginsInOrder_def split: sum.splits)
  obtain st2 a2 where r: "unloadPluginsInOrder_rest e (pluginsMap st1) (st1, a1) = (st2, a2)" by force
  from u l r have "s = st2\<lparr>locations := []\<rparr>"
    by (auto simp: unloadPluginsInOrder_def)
  with unloadPluginsInOrder_loop_result[OF l] unloadPluginsInOrder_rest_result[OF r] s
  show "pluginsMap st' = []" "locations st' = []" "loadOrderList st' = loadOrderList st"
    by (auto simp: invoke_def)
next
  assume "distinct (loadOrderList st) \<and> set (loadOrderList st) \<subseteq> fst ` set (pluginsMap st)"
  then obtain st1 a1 where
    "unloadPluginsInOrder_loop e (rev (loadOrderList st)) (st, True) = Inr (st1, a1)"
    using unloadPluginsInOrder_loop_total[of "rev (loadOrderList st)" st e True] by auto
  then show "\<exists>rc st'. unloadPlugins e cb st = Inr (rc, st')"
    by (auto simp: unloadPlugins_def unloadPluginsInOrder_def split: prod.splits)
next
  show "loadOrderList (snd (searchForPlugins e pluginDir recursive cb st)) = loadOrderList st"
    by (rule searchForPlugins_order)
next
  show "loadOrderList (snd (registerMainPlugin n st)) = loadOrderList st"
    by (simp add: registerMainPlugin_def)
next
  fix b st'
  assume "loadPlugin fuel e n st = Inr (b, st')"
  then show "loadOrderList st' = loadOrderList st" by (rule loadPlugin_order)
qed

lemma unloadPlugins_returns_cleared_example:
  "distinct (loadOrderList ex_loaded) \<and>
   set (loadOrderList ex_loaded) \<subseteq> fst ` set (pluginsMap ex_loaded) \<and>
   loadOrderList ex_loaded = [''A'', ''B''] \<and>
   length (pluginsMap ex_loaded) = 3 \<and>
   unloadPlugins ex_env True ex_loaded = Inr (SUCCESS, ex_unloaded) \<and>
   pluginsMap ex_unloaded = [] \<and> locations ex_unloaded = [] \<and>
   loadOrderList ex_unloaded = [''A'', ''B'']"
proof -
  have a: "unloadPlugins ex_env True ex_loaded = Inr (SUCCESS, ex_unloaded)"
    by code_simp
  have b: "loadOrderList ex_loaded = [''A'', ''B'']" "length (pluginsMap ex_loaded) = 3"
    by code_simp+
  have c: "distinct (loadOrderList ex_loaded)"
    by code_simp
  have d: "set (loadOrderList ex_loaded) \<subseteq> fst ` set (pluginsMap ex_loaded)"
    by code_simp
  from unloadPlugins_returns_cleared[of ex_env True ex_loaded] a
  have "pluginsMap ex_unloaded = [] \<and> locations ex_unloaded = [] \<and>
        loadOrderList ex_unloaded = loadOrderList ex_loaded"
    by blast
  with a b c d show ?thesis by simp
qed

text \<open>
  C10. After \<open>unloadPlugins\<close> the load order still holds \<open>A\<close> and \<open>B\<close>, so a second
  \<open>unloadPlugins\<close> looks up \<open>B\<close> in the empty map and dereferences the null pointer
  \<^verbatim>\<open>pluginsMap[*it]\<close>. After one more search, in \<open>/dup\<close>, the same happens with the
  record \<open>E\<close> in the map and \<open>/dup\<close> among the locations: the call ends at the null
  pointer, with nothing removed and nothing cleared.
\<close>

theorem unloadPlugins_stale_order_faults:
  "unloadPlugins ex_env True ex_loaded = Inr (SUCCESS, ex_unloaded) \<and>
   pluginsMap ex_unloaded = [] \<and>
   loadOrderList ex_unloaded = [''A'', ''B''] \<and>
   unloadPlugins ex_env True ex_unloaded = Inl NullDeref \<and>
   hasPlugin ex_stale ''E'' \<and>
   locations ex_stale = [''/dup''] \<and>
   loadOrderList ex_stale = [''A'', ''B''] \<and>
   unloadPlugins ex_env True ex_stale = Inl NullDeref"
  by code_simp

section \<open>Name collisions and invalid metadata in discovery\<close>

lemma searchForPlugins_body_map_only:
  assumes "pluginsMap s1 = pluginsMap s2"
  shows "pluginsMap (fst (searchForPlugins_body e cb p (s1, f))) =
         pluginsMap (fst (searchForPlugins_body e cb p (s2, f))) \<and>
         snd (searchForPlugins_body e cb p (s1, f)) = snd (searchForPlugins_body e cb p (s2, f))"
  using assms
  by (auto simp: searchForPlugins_body_def invoke_def hasPlugin_def Let_def split: option.splits)

lemma searchForPlugins_loop_map_only:
  "pluginsMap s1 = pluginsMap s2 \<Longrightarrow>
   pluginsMap (fst (searchForPlugins_loop e cb ps (s1, f))) =
   pluginsMap (fst (searchForPlugins_loop e cb ps (s2, f))) \<and>
   snd (searchForPlugins_loop e cb ps (s1, f)) = snd (searchForPlugins_loop e cb ps (s2, f))"
proof (induction ps arbitrary: s1 s2 f)
  case Nil
  then show ?case by simp
next
  case (Cons p ps)
  obtain a1 g1 where b1: "searchForPlugins_body e cb p (s1, f) = (a1, g1)" by force
  obtain a2 g2 where b2: "searchForPlugins_body e cb p (s2, f) = (a2, g2)" by force
  from searchForPlugins_body_map_only[OF Cons.prems, of e cb p f] b1 b2
  have "pluginsMap a1 = pluginsMap a2" "g1 = g2" by auto
  with Cons.IH[of a1 a2 g1] b1 b2 show ?case by simp
qed

lemma one_record:
  "distinct (map fst m) \<Longrightarrow> map_of m n = Some q \<Longrightarrow> length (filter (\<lambda>kv. fst kv = n) m) = 1"
proof (induction m)
  case Nil
  then show ?case by simp
next
  case (Cons kv m)
  show ?case
  proof (cases "fst kv = n")
    case True
    with Cons.prems have "filter (\<lambda>kv. fst kv = n) m = []"
      by (auto simp: filter_empty_conv image_iff)
    with True show ?thesis by simp
  next
    case False
    with Cons show ?thesis by (cases kv) auto
  qed
qed

text \<open>The run of a search, cut at one path of the list.\<close>

lemma searchForPlugins_split:
  assumes ls: "listLibrariesInDir e pluginDir recursive = (err, pre @ p # post)"
      and sp: "searchForPlugins_loop e cb pre (st, False) = (sp, fp)"
      and res: "searchForPlugins e pluginDir recursive cb st = (rc, st')"
  obtains sp0 sb fb s1 f1 t0 where
    "pluginsMap sp0 = pluginsMap sp" "trace sp0 = trace st @ t0"
    "searchForPlugins_body e cb p (sp0, fp) = (sb, fb)"
    "searchForPlugins_loop e cb post (sb, fb) = (s1, f1)"
    "pluginsMap st' = pluginsMap s1" "trace st' = trace s1"
proof -
  define st0 where
    "st0 = (case err of None \<Rightarrow> st | Some msg \<Rightarrow> invoke cb SEARCH_LISTFILES_ERROR (Some msg) st)"
  have m0: "pluginsMap st0 = pluginsMap st" and t0: "\<exists>t. trace st0 = trace st @ t"
    by (auto simp: st0_def invoke_def split: option.splits)
  obtain sp0 fp0 where l0: "searchForPlugins_loop e cb pre (st0, False) = (sp0, fp0)" by force
  from searchForPlugins_loop_map_only[OF m0, of e cb pre False] sp l0
  have a: "pluginsMap sp0 = pluginsMap sp" "fp0 = fp" by auto
  from searchForPlugins_loop_trace[OF l0] t0 obtain t where b: "trace sp0 = trace st @ t" by auto
  obtain sb fb where c: "searchForPlugins_body e cb p (sp0, fp) = (sb, fb)" by force
  obtain s1 f1 where d: "searchForPlugins_loop e cb post (sb, fb) = (s1, f1)" by force
  have full: "searchForPlugins_loop e cb (pre @ p # post) (st0, False) = (s1, f1)"
    using l0 a c d by (simp add: searchForPlugins_loop_append)
  have res': "(case searchForPlugins_loop e cb (pre @ p # post) (st0, False) of
                 (st1, found) \<Rightarrow>
                   if found then
                     (SUCCESS,
                      if pluginDir \<in> set (locations st1) then st1
                      else st1\<lparr>locations := locations st1 @ [pluginDir]\<rparr>)
                   else (SEARCH_NOTHING_FOUND, st1)) = (rc, st')"
    using res ls unfolding searchForPlugins_def st0_def by (simp add: Let_def)
  have e: "pluginsMap st' = pluginsMap s1" "trace st' = trace s1"
    using res' unfolding full by (auto split: if_splits)
  show ?thesis
    by (rule that[OF a(1) b c d e])
qed

text \<open>
  C8. A candidate at path \<open>p\<close> exports the three symbols, and when its turn comes
  (after the paths \<open>pre\<close> before it in the list) the map already has a record \<open>q\<close>
  under its \<open>jp_name\<close>. Then a given callback is called with
  \<open>SEARCH_NAME_ALREADY_EXISTS\<close> and the path, and after the search the map still has
  \<open>q\<close> under that name, exactly one record under that name, and distinct keys.
\<close>

theorem searchForPlugins_name_collision:
  assumes "distinct (map fst (pluginsMap st))"
      and "listLibrariesInDir e pluginDir recursive = (err, pre @ p # post)"
      and "dlopen e p = Some l" and "sym_jp_name l = Some n"
      and "sym_jp_metadata l = Some md" and "sym_jp_createPlugin l"
      and "searchForPlugins_loop e cb pre (st, False) = (sp, fp)"
      and "map_of (pluginsMap sp) n = Some q"
      and "searchForPlugins e pluginDir recursive cb st = (rc, st')"
  shows "(cb \<longrightarrow> (\<exists>t1 t2. trace st' =
                     trace st @ t1 @ Callback SEARCH_NAME_ALREADY_EXISTS (Some p) # t2)) \<and>
         map_of (pluginsMap st') n = Some q \<and>
         length (filter (\<lambda>kv. fst kv = n) (pluginsMap st')) = 1 \<and>
         distinct (map fst (pluginsMap st'))"
proof (rule searchForPlugins_split[OF assms(2,7,9)])
  fix sp0 sb fb s1 f1 t0
  assume a: "pluginsMap sp0 = pluginsMap sp" "trace sp0 = trace st @ t0"
    and b: "searchForPlugins_body e cb p (sp0, fp) = (sb, fb)"
    and c: "searchForPlugins_loop e cb post (sb, fb) = (s1, f1)"
    and d: "pluginsMap st' = pluginsMap s1" "trace st' = trace s1"
  have has: "hasPlugin sp0 n" using a assms(8) by (simp add: hasPlugin_def)
  with b assms(3-6) have sb: "sb = invoke cb SEARCH_NAME_ALREADY_EXISTS (Some p) sp0"
    by (simp add: searchForPlugins_body_def)
  have q: "map_of (pluginsMap sb) n = Some q"
    using sb a assms(8) by (simp add: invoke_def)
  have dsp: "distinct (map fst (pluginsMap sp))"
    using searchForPlugins_loop_distinct[OF assms(7,1)] .
  have dsb: "distinct (map fst (pluginsMap sb))"
    using sb a dsp by (simp add: invoke_def)
  have q': "map_of (pluginsMap st') n = Some q"
    using searchForPlugins_loop_keeps[OF c q] d by simp
  have d': "distinct (map fst (pluginsMap st'))"
    using searchForPlugins_loop_distinct[OF c dsb] d by simp
  from searchForPlugins_loop_trace[OF c] obtain t2 where "trace s1 = trace sb @ t2" by auto
  with sb a d have "cb \<longrightarrow> trace st' = trace st @ t0 @ Callback SEARCH_NAME_ALREADY_EXISTS (Some p) # t2"
    by (simp add: invoke_def)
  then have cbp: "cb \<longrightarrow> (\<exists>t1 t2. trace st' =
                     trace st @ t1 @ Callback SEARCH_NAME_ALREADY_EXISTS (Some p) # t2)"
    by blast
  show ?thesis
    using cbp q' one_record[OF d' q'] d' by (intro conjI)
qed

theorem searchForPlugins_name_collision_witness:
  "listLibrariesInDir ex_env ''/dup'' False = (None, [''/dup/libE1.so''] @ ''/dup/libE2.so'' # []) \<and>
   hasPlugin (fst (searchForPlugins_loop ex_env True [''/dup/libE1.so''] (PlugMgrPrivate_new, False))) ''E'' \<and>
   trace (snd (searchForPlugins ex_env ''/dup'' False True PlugMgrPrivate_new)) =
     [Callback SEARCH_NAME_ALREADY_EXISTS (Some ''/dup/libE2.so'')] \<and>
   map fst (pluginsMap (snd (searchForPlugins ex_env ''/dup'' False True PlugMgrPrivate_new))) = [''E''] \<and>
   length (filter (\<lambda>kv. fst kv = ''E'')
     (pluginsMap (snd (searchForPlugins ex_env ''/dup'' False True PlugMgrPrivate_new)))) = 1"
proof -
  let ?st' = "snd (searchForPlugins ex_env ''/dup'' False True PlugMgrPrivate_new)"
  let ?sp = "fst (searchForPlugins_loop ex_env True [''/dup/libE1.so''] (PlugMgrPrivate_new, False))"
  have 1: "distinct (map fst (pluginsMap PlugMgrPrivate_new))" by code_simp
  have 2: "listLibrariesInDir ex_env ''/dup'' False = (None, [''/dup/libE1.so''] @ ''/dup/libE2.so'' # [])"
    by code_simp
  have 3: "dlopen ex_env ''/dup/libE2.so'' = Some (ex_library ''E'' ''meta E'')" by code_simp
  have 4: "sym_jp_name (ex_library ''E'' ''meta E'') = Some ''E''"
          "sym_jp_metadata (ex_library ''E'' ''meta E'') = Some ''meta E''"
          "sym_jp_createPlugin (ex_library ''E'' ''meta E'')"
    by code_simp+
  have 5: "searchForPlugins_loop ex_env True [''/dup/libE1.so''] (PlugMgrPrivate_new, False) = (?sp, True)"
    by code_simp
  have 6: "map_of (pluginsMap ?sp) ''E'' = Some (the (map_of (pluginsMap ?sp) ''E''))" by code_simp
  have 7: "searchForPlugins ex_env ''/dup'' False True PlugMgrPrivate_new = (SUCCESS, ?st')" by code_simp
  have 8: "hasPlugin ?sp ''E''" by code_simp
  have 9: "trace ?st' = [Callback SEARCH_NAME_ALREADY_EXISTS (Some ''/dup/libE2.so'')]" by code_simp
  have 10: "map fst (pluginsMap ?st') = [''E'']" by code_simp
  note main = searchForPlugins_name_collision[OF 1 2 3 4 5 6 7]
  from main have 11: "length (filter (\<lambda>kv. fst kv = ''E'') (pluginsMap ?st')) = 1"
    by (elim conjE)
  show ?thesis
    using 2 8 9 10 11 by (intro conjI)
qed

lemma parse_dependencies_None:
  "\<exists>d \<in> set ds. get_str d ''name'' = None \<or> get_str d ''version'' = None \<Longrightarrow>
   parse_dependencies ds = None"
proof (induction ds)
  case Nil
  then show ?case by simp
next
  case (Cons a ds)
  show ?case
  proof (cases "get_str a ''name'' = None \<or> get_str a ''version'' = None")
    case True
    then show ?thesis by (auto split: Option.bind_splits)
  next
    case False
    with Cons.prems have "\<exists>d \<in> set ds. get_str d ''name'' = None \<or> get_str d ''version'' = None"
      by auto
    from Cons.IH[OF this] show ?thesis by (simp split: Option.bind_splits)
  qed
qed

lemma metadata_invalid_try:
  assumes "metadata_invalid e md"
  shows "parseMetadata_try e md = None"
proof (cases "json_parse e md")
  case None
  then show ?thesis by (simp add: parseMetadata_try_def)
next
  case (Some tree)
  with assms consider
      (key) k where "k \<in> set [''api'', ''name'', ''prettyName'', ''version'', ''author'', ''url'',
                      ''license'', ''copyright'']" "get_str tree k = None"
    | (nodeps) "json_at tree ''dependencies'' = None"
    | (baddep) ds where "json_at tree ''dependencies'' = Some (JArray ds)"
        "\<exists>d \<in> set ds. get_str d ''name'' = None \<or> get_str d ''version'' = None"
    | (api) api where "get_str tree ''api'' = Some api" "compatible e api JP_PLUGIN_API \<noteq> Some True"
    unfolding metadata_invalid_def by (auto simp del: set_simps)
  then show ?thesis
  proof cases
    case key
    then show ?thesis using Some
      by (auto simp: parseMetadata_try_def split: Option.bind_splits)
  next
    case nodeps
    then show ?thesis using Some
      by (auto simp: parseMetadata_try_def split: Option.bind_splits)
  next
    case baddep
    then show ?thesis using Some parse_dependencies_None[OF baddep(2)]
      by (auto simp: parseMetadata_try_def split: Option.bind_splits)
  next
    case api
    then show ?thesis using Some
      by (auto simp: parseMetadata_try_def split: Option.bind_splits)
  qed
qed

lemma metadata_invalid_name:
  "metadata_invalid e md \<Longrightarrow> name (parseMetadata e md) = []"
  by (simp add: parseMetadata_def metadata_invalid_try PluginInfoStd_default_def)

lemma searchForPlugins_new:
  assumes "searchForPlugins e pluginDir recursive cb st = (rc, st')"
      and "map_of (pluginsMap st') k = Some q"
  shows "map_of (pluginsMap st) k = Some q \<or>
         (\<exists>p l md. dlopen e p = Some l \<and> sym_jp_metadata l = Some md \<and>
             name (parseMetadata e md) \<noteq> [] \<and> path q = p)"
proof -
  obtain err libList where ls: "listLibrariesInDir e pluginDir recursive = (err, libList)" by force
  define st0 where
    "st0 = (case err of None \<Rightarrow> st | Some msg \<Rightarrow> invoke cb SEARCH_LISTFILES_ERROR (Some msg) st)"
  have m0: "pluginsMap st0 = pluginsMap st"
    by (auto simp: st0_def invoke_def split: option.splits)
  obtain st1 f1 where lp: "searchForPlugins_loop e cb libList (st0, False) = (st1, f1)" by force
  have m1: "pluginsMap st' = pluginsMap st1 \<or> pluginsMap st' = pluginsMap st0"
    using assms(1) ls lp by (auto simp: searchForPlugins_def Let_def st0_def split: if_splits)
  then show ?thesis
  proof
    assume "pluginsMap st' = pluginsMap st0"
    with m0 assms(2) show ?thesis by simp
  next
    assume "pluginsMap st' = pluginsMap st1"
    with assms(2) have "map_of (pluginsMap st1) k = Some q" by simp
    from searchForPlugins_loop_new[OF lp this] show ?thesis
    proof
      assume "map_of (pluginsMap st0) k = Some q"
      with m0 show ?thesis by simp
    next
      assume "\<not> hasPlugin st0 k \<and> (\<exists>p l md. p \<in> set libList \<and> dlopen e p = Some l \<and>
         sym_jp_name l = Some k \<and> sym_jp_metadata l = Some md \<and> sym_jp_createPlugin l \<and>
         name (parseMetadata e md) \<noteq> [] \<and>
         q = Plugin_new\<lparr>lib := Some p, path := p, info := parseMetadata e md\<rparr>)"
      then obtain p l md where "dlopen e p = Some l" "sym_jp_metadata l = Some md"
        "name (parseMetadata e md) \<noteq> []"
        "q = Plugin_new\<lparr>lib := Some p, path := p, info := parseMetadata e md\<rparr>"
        by auto
      moreover from this have "path q = p" by simp
      ultimately show ?thesis by blast
    qed
  qed
qed

text \<open>
  C7 (amended). A candidate at path \<open>p\<close> exports the three symbols and its metadata
  cannot be accepted. Then \<open>parseMetadata\<close> yields a record with an empty name, and no
  record built from \<open>p\<close> is in the map after the search unless it was there before.
  When a callback is given and the candidate's \<open>jp_name\<close> is not in the map when its
  turn comes, the callback is called with \<open>SEARCH_CANNOT_PARSE_METADATA\<close> and the path.
\<close>

theorem searchForPlugins_invalid_metadata:
  assumes "metadata_invalid e md"
      and "listLibrariesInDir e pluginDir recursive = (err, pre @ p # post)"
      and "dlopen e p = Some l" and "sym_jp_name l = Some n"
      and "sym_jp_metadata l = Some md" and "sym_jp_createPlugin l"
      and "searchForPlugins_loop e cb pre (st, False) = (sp, fp)"
      and "searchForPlugins e pluginDir recursive cb st = (rc, st')"
  shows "name (parseMetadata e md) = [] \<and>
         (cb \<and> \<not> hasPlugin sp n \<longrightarrow>
            (\<exists>t1 t2. trace st' =
               trace st @ t1 @ Callback SEARCH_CANNOT_PARSE_METADATA (Some p) # t2)) \<and>
         (\<forall>k q. map_of (pluginsMap st') k = Some q \<and> path q = p \<longrightarrow>
                map_of (pluginsMap st) k = Some q)"
proof (intro conjI allI impI)
  show nm: "name (parseMetadata e md) = []"
    using assms(1) by (rule metadata_invalid_name)
  {
    fix k q
    assume kq: "map_of (pluginsMap st') k = Some q \<and> path q = p"
    from searchForPlugins_new[OF assms(8) conjunct1[OF kq]] kq assms(3,5) nm
    show "map_of (pluginsMap st) k = Some q" by auto
  }
  assume cbn: "cb \<and> \<not> hasPlugin sp n"
  show "\<exists>t1 t2. trace st' = trace st @ t1 @ Callback SEARCH_CANNOT_PARSE_METADATA (Some p) # t2"
  proof (rule searchForPlugins_split[OF assms(2,7,8)])
    fix sp0 sb fb s1 f1 t0
    assume a: "pluginsMap sp0 = pluginsMap sp" "trace sp0 = trace st @ t0"
      and b: "searchForPlugins_body e cb p (sp0, fp) = (sb, fb)"
      and c: "searchForPlugins_loop e cb post (sb, fb) = (s1, f1)"
      and d: "pluginsMap st' = pluginsMap s1" "trace st' = trace s1"
    have "\<not> hasPlugin sp0 n" using a cbn by (simp add: hasPlugin_def)
    with b assms(3-6) nm have sb: "sb = invoke cb SEARCH_CANNOT_PARSE_METADATA (Some p) sp0"
      by (simp add: searchForPlugins_body_def)
    from searchForPlugins_loop_trace[OF c] obtain t2 where "trace s1 = trace sb @ t2" by auto
    with sb a d cbn
    have "trace st' = trace st @ t0 @ Callback SEARCH_CANNOT_PARSE_METADATA (Some p) # t2"
      by (simp add: invoke_def)
    then show ?thesis by blast
  qed
qed

text \<open>
  C7 as stated fails when the name is taken: the name check comes first and ends the
  iteration. In the example world \<open>/more/libA2.so\<close> calls itself \<open>A\<close> and its metadata
  does not parse; with \<open>A\<close> already in the map, the callback is never called with
  \<open>SEARCH_CANNOT_PARSE_METADATA\<close> for it.
\<close>

theorem searchForPlugins_invalid_metadata_counterexample:
  "dlopen ex_env ''/more/libA2.so'' = Some (ex_library ''A'' ''not json'') \<and>
   json_parse ex_env ''not json'' = None \<and>
   name (parseMetadata ex_env ''not json'') = [] \<and>
   listLibrariesInDir ex_env ''/more'' False = (None, [''/more/libA2.so'', ''/more/libD.so'']) \<and>
   Callback SEARCH_CANNOT_PARSE_METADATA (Some ''/more/libA2.so'')
     \<notin> set (trace (snd (searchForPlugins ex_env ''/more'' False True ex_discovered)))"
  by code_simp

theorem searchForPlugins_invalid_metadata_witness:
  "metadata_invalid ex_env ''not json'' \<and>
   listLibrariesInDir ex_env ''/more'' False = (None, [''/more/libA2.so''] @ ''/more/libD.so'' # []) \<and>
   \<not> hasPlugin (fst (searchForPlugins_loop ex_env True [''/more/libA2.so''] (ex_discovered, False))) ''D'' \<and>
   name (parseMetadata ex_env ''not json'') = [] \<and>
   trace (snd (searchForPlugins ex_env ''/more'' False True ex_discovered)) =
     [Callback SEARCH_NAME_ALREADY_EXISTS (Some ''/more/libA2.so''),
      Callback SEARCH_CANNOT_PARSE_METADATA (Some ''/more/libD.so'')] \<and>
   map fst (pluginsMap (snd (searchForPlugins ex_env ''/more'' False True ex_discovered))) =
     [''A'', ''B'', ''C'']"
proof -
  let ?st' = "snd (searchForPlugins ex_env ''/more'' False True ex_discovered)"
  let ?sp = "fst (searchForPlugins_loop ex_env True [''/more/libA2.so''] (ex_discovered, False))"
  have 0: "json_parse ex_env ''not json'' = None" by code_simp
  have 1: "metadata_invalid ex_env ''not json''"
    unfolding metadata_invalid_def 0 by simp
  have 2: "listLibrariesInDir ex_env ''/more'' False = (None, [''/more/libA2.so''] @ ''/more/libD.so'' # [])"
    by code_simp
  have 3: "dlopen ex_env ''/more/libD.so'' = Some (ex_library ''D'' ''not json'')" by code_simp
  have 4: "sym_jp_name (ex_library ''D'' ''not json'') = Some ''D''"
          "sym_jp_metadata (ex_library ''D'' ''not json'') = Some ''not json''"
          "sym_jp_createPlugin (ex_library ''D'' ''not json'')"
    by code_simp+
  have 5: "searchForPlugins_loop ex_env True [''/more/libA2.so''] (ex_discovered, False) = (?sp, False)"
    by code_simp
  have 7: "searchForPlugins ex_env ''/more'' False True ex_discovered = (SEARCH_NOTHING_FOUND, ?st')"
    by code_simp
  have 8: "\<not> hasPlugin ?sp ''D''" by code_simp
  have 9: "trace ?st' = [Callback SEARCH_NAME_ALREADY_EXISTS (Some ''/more/libA2.so''),
      Callback SEARCH_CANNOT_PARSE_METADATA (Some ''/more/libD.so'')]" by code_simp
  have 10: "map fst (pluginsMap ?st') = [''A'', ''B'', ''C'']" by code_simp
  note main = searchForPlugins_invalid_metadata[OF 1 2 3 4 5 7]
  from main have 11: "name (parseMetadata ex_env ''not json'') = []"
    by (elim conjE)
  show ?thesis
    using 1 2 8 9 10 11 by (intro conjI)
qed

section \<open>Properties of the topological sort\<close>

lemma shape_length: "shape a = shape b \<Longrightarrow> length a = length b"
  unfolding shape_def by (rule map_eq_imp_length_eq)

lemma shape_nth:
  "shape a = shape b \<Longrightarrow> i < length a \<Longrightarrow>
   node_name (a ! i) = node_name (b ! i) \<and> parentNodes (a ! i) = parentNodes (b ! i)"
proof -
  assume s: "shape a = shape b" and i: "i < length a"
  then have "shape a ! i = shape b ! i" by simp
  moreover have "i < length b" using shape_length[OF s] i by simp
  ultimately show ?thesis using i by (simp add: shape_def)
qed

lemma shape_mark: "i < length nodes \<Longrightarrow> shape (nodes[i := (nodes ! i)\<lparr>flag := m\<rparr>]) = shape nodes"
  by (simp add: shape_def map_update list_update_same_conv)

lemma shape_mark': "shape (nodes[i := (nodes ! i)\<lparr>flag := m\<rparr>]) = shape nodes"
  by (cases "i < length nodes") (simp_all add: shape_mark list_update_beyond)

lemma parents_in_range_shape:
  "shape a = shape b \<Longrightarrow> parents_in_range a = parents_in_range b"
proof -
  assume s: "shape a = shape b"
  have "map parentNodes a = map parentNodes b"
    using arg_cong[OF s, of "map snd"] by (simp add: shape_def comp_def)
  then have "set (map parentNodes a) = set (map parentNodes b)" by simp
  then have "parentNodes ` set a = parentNodes ` set b" by simp
  then have "(\<forall>ps \<in> parentNodes ` set a. \<forall>p \<in> set ps. 0 \<le> p \<and> p < int (length a)) =
             (\<forall>ps \<in> parentNodes ` set b. \<forall>p \<in> set ps. 0 \<le> p \<and> p < int (length b))"
    using shape_length[OF s] by simp
  then show ?thesis by (simp add: parents_in_range_def)
qed

lemma finite_unmarked: "finite (unmarked nodes)"
  by (simp add: unmarked_def)

lemma unmarked_mark:
  "m \<noteq> UNMARKED \<Longrightarrow> unmarked (nodes[i := (nodes ! i)\<lparr>flag := m\<rparr>]) = unmarked nodes - {i}"
proof (cases "i < length nodes")
  case True
  assume "m \<noteq> UNMARKED"
  with True show ?thesis
    by (auto simp: unmarked_def nth_list_update split: if_splits)
next
  case False
  then show ?thesis
    by (auto simp: unmarked_def list_update_beyond)
qed

text \<open>With the parents in range and more fuel than unmarked nodes, a visit returns.\<close>

lemma visitNode_parents_total:
  assumes V: "\<And>j s. j < length (fst s) \<Longrightarrow> parents_in_range (fst s) \<Longrightarrow>
                card (unmarked (fst s)) < fuel \<Longrightarrow>
                \<exists>ok s'. visit j s = Inr (ok, s') \<and> shape (fst s') = shape (fst s) \<and>
                         unmarked (fst s') \<subseteq> unmarked (fst s)"
  shows "\<forall>p \<in> set ps. 0 \<le> p \<and> p < int (length (fst s)) \<Longrightarrow> parents_in_range (fst s) \<Longrightarrow>
         card (unmarked (fst s)) < fuel \<Longrightarrow>
         \<exists>ok s'. visitNode_parents visit ps s = Inr (ok, s') \<and> shape (fst s') = shape (fst s) \<and>
                  unmarked (fst s') \<subseteq> unmarked (fst s)"
proof (induction ps arbitrary: s)
  case Nil
  then show ?case by auto
next
  case (Cons p ps)
  from Cons.prems(1) have pr: "0 \<le> p" "p < int (length (fst s))" by auto
  then have "nat p < length (fst s)" by simp
  from V[OF this Cons.prems(2,3)] obtain ok s1 where
    v: "visit (nat p) s = Inr (ok, s1)" and sh: "shape (fst s1) = shape (fst s)"
    and un: "unmarked (fst s1) \<subseteq> unmarked (fst s)" by blast
  show ?case
  proof (cases ok)
    case False
    with v pr sh un show ?thesis by auto
  next
    case True
    have len: "length (fst s1) = length (fst s)" using shape_length[OF sh] .
    have 1: "\<forall>p \<in> set ps. 0 \<le> p \<and> p < int (length (fst s1))"
      using Cons.prems(1) len by simp
    have 2: "parents_in_range (fst s1)"
      using parents_in_range_shape[OF sh] Cons.prems(2) by simp
    have 3: "card (unmarked (fst s1)) < fuel"
      using card_mono[OF finite_unmarked un] Cons.prems(3) by simp
    from Cons.IH[OF 1 2 3] obtain ok' s' where
      r: "visitNode_parents visit ps s1 = Inr (ok', s')" "shape (fst s') = shape (fst s1)"
         "unmarked (fst s') \<subseteq> unmarked (fst s1)" by blast
    with v pr True sh un show ?thesis by auto
  qed
qed

lemma visitNode_total:
  "i < length (fst s) \<Longrightarrow> parents_in_range (fst s) \<Longrightarrow> card (unmarked (fst s)) < fuel \<Longrightarrow>
   \<exists>ok s'. visitNode fuel i s = Inr (ok, s') \<and> shape (fst s') = shape (fst s) \<and>
            unmarked (fst s') \<subseteq> unmarked (fst s)"
proof (induction fuel arbitrary: i s)
  case 0
  then show ?case by simp
next
  case (Suc fuel)
  obtain nodes l where s: "s = (nodes, l)" by force
  show ?case
  proof (cases "flag (nodes ! i) = UNMARKED")
    case False
    then show ?thesis using s by (cases "flag (nodes ! i)") auto
  next
    case True
    define nodes1 where "nodes1 = nodes[i := (nodes ! i)\<lparr>flag := MARK_TEMP\<rparr>]"
    have i: "i < length nodes" using Suc.prems(1) s by simp
    have sh1: "shape nodes1 = shape nodes" by (simp add: nodes1_def shape_mark')
    have un1: "unmarked nodes1 = unmarked nodes - {i}"
      by (simp add: nodes1_def unmarked_mark)
    have "i \<in> unmarked nodes" using True i by (simp add: unmarked_def)
    then have "card (unmarked nodes - {i}) < card (unmarked nodes)"
      by (rule card_Diff1_less[OF finite_unmarked])
    then have c1: "card (unmarked nodes1) < fuel"
      using Suc.prems(3) s un1 by simp
    have pr1: "parents_in_range nodes1"
      using parents_in_range_shape[OF sh1] Suc.prems(2) s by simp
    have "nodes ! i \<in> set nodes" using i by simp
    then have ps: "\<forall>p \<in> set (parentNodes (nodes ! i)). 0 \<le> p \<and> p < int (length (fst (nodes1, l)))"
      using Suc.prems(2) s shape_length[OF sh1] by (auto simp: parents_in_range_def)
    have "\<exists>ok s'. visitNode_parents (visitNode fuel) (parentNodes (nodes ! i)) (nodes1, l) = Inr (ok, s') \<and>
            shape (fst s') = shape (fst (nodes1, l)) \<and> unmarked (fst s') \<subseteq> unmarked (fst (nodes1, l))"
    proof -
      have pr1': "parents_in_range (fst (nodes1, l))" using pr1 by simp
      have c1': "card (unmarked (fst (nodes1, l))) < fuel" using c1 by simp
      show ?thesis
        by (rule visitNode_parents_total[where visit="visitNode fuel" and fuel=fuel, OF Suc.IH ps pr1' c1'])
    qed
    then obtain ok nodes' l' where
      r: "visitNode_parents (visitNode fuel) (parentNodes (nodes ! i)) (nodes1, l) = Inr (ok, nodes', l')"
      and sh': "shape nodes' = shape nodes1" and un': "unmarked nodes' \<subseteq> unmarked nodes1"
      by auto
    show ?thesis
    proof (cases ok)
      case False
      with r True s sh' sh1 un' un1 show ?thesis
        by (auto simp: nodes1_def[symmetric])
    next
      case ok: True
      have "unmarked (nodes'[i := (nodes' ! i)\<lparr>flag := MARK_PERMANENT\<rparr>]) \<subseteq> unmarked nodes"
        using un' un1 by (auto simp: unmarked_mark)
      with r True s sh' sh1 ok show ?thesis
        by (auto simp: nodes1_def[symmetric] shape_mark')
    qed
  qed
qed

lemma precedes_append: "precedes a b xs \<Longrightarrow> precedes a b (xs @ ys)"
proof -
  assume "precedes a b xs"
  then obtain k1 k2 where k: "k1 < k2" "k2 < length xs" "xs ! k1 = a" "xs ! k2 = b"
    unfolding precedes_def by auto
  then have "k1 < length xs" by simp
  with k show ?thesis
    unfolding precedes_def
    by (intro exI[of _ k1] exI[of _ k2]) (simp add: nth_append)
qed

lemma precedes_snoc: "a \<in> set xs \<Longrightarrow> precedes a b (xs @ [b])"
proof -
  assume "a \<in> set xs"
  then obtain k where "k < length xs" "xs ! k = a" by (auto simp: in_set_conv_nth)
  then show ?thesis
    unfolding precedes_def
    by (intro exI[of _ k] exI[of _ "length xs"]) (simp add: nth_append)
qed

lemma flag_mark_nth:
  "k < length nodes \<Longrightarrow>
   flag (nodes[i := (nodes ! i)\<lparr>flag := m\<rparr>] ! k) = (if k = i then m else flag (nodes ! k))"
  by (cases "i < length nodes") (auto simp: nth_list_update list_update_beyond)

lemma sorted_so_far_idx: "sorted_so_far nodes l idxs \<Longrightarrow> k \<in> set idxs \<Longrightarrow> k < length nodes"
  by (auto simp: sorted_so_far_def)

lemma sorted_so_far_perm:
  "sorted_so_far nodes l idxs \<Longrightarrow> k < length nodes \<Longrightarrow>
   (k \<in> set idxs \<longleftrightarrow> flag (nodes ! k) = MARK_PERMANENT)"
  by (auto simp: sorted_so_far_def)

text \<open>The invariant only reads the names, the parents and which nodes are permanent.\<close>

lemma sorted_so_far_transfer:
  assumes inv: "sorted_so_far a l idxs" and sh: "shape b = shape a"
      and pm: "\<forall>k < length a. flag (b ! k) = MARK_PERMANENT \<longleftrightarrow> flag (a ! k) = MARK_PERMANENT"
  shows "sorted_so_far b l idxs"
proof -
  have len: "length b = length a" using shape_length[OF sh] .
  have nth: "\<And>k. k < length a \<Longrightarrow> node_name (b ! k) = node_name (a ! k) \<and>
                                   parentNodes (b ! k) = parentNodes (a ! k)"
    using shape_nth[OF sh] len by simp
  have in_a: "\<And>k. k \<in> set idxs \<Longrightarrow> k < length a"
    using sorted_so_far_idx[OF inv] .
  have 1: "l = map (\<lambda>i. node_name (b ! i)) idxs"
  proof -
    have "map (\<lambda>i. node_name (b ! i)) idxs = map (\<lambda>i. node_name (a ! i)) idxs"
      by (rule map_cong) (simp_all add: nth in_a)
    with inv show ?thesis by (simp add: sorted_so_far_def)
  qed
  have 2: "distinct idxs" using inv by (simp add: sorted_so_far_def)
  have i3: "set idxs = {i. i < length a \<and> flag (a ! i) = MARK_PERMANENT}"
    using inv by (simp add: sorted_so_far_def)
  have i4: "\<forall>i \<in> set idxs. \<forall>p \<in> set (parentNodes (a ! i)).
             0 \<le> p \<and> nat p < length a \<and> precedes (nat p) i idxs"
    using inv by (simp add: sorted_so_far_def)
  have "{i. i < length b \<and> flag (b ! i) = MARK_PERMANENT} =
        {i. i < length a \<and> flag (a ! i) = MARK_PERMANENT}"
    using pm len by auto
  with i3 have 3: "set idxs = {i. i < length b \<and> flag (b ! i) = MARK_PERMANENT}"
    by simp
  have 4: "\<forall>i \<in> set idxs. \<forall>p \<in> set (parentNodes (b ! i)).
             0 \<le> p \<and> nat p < length b \<and> precedes (nat p) i idxs"
  proof (intro ballI)
    fix i p assume i: "i \<in> set idxs" and p: "p \<in> set (parentNodes (b ! i))"
    from p nth[OF in_a[OF i]] have "p \<in> set (parentNodes (a ! i))" by simp
    with i4 i len show "0 \<le> p \<and> nat p < length b \<and> precedes (nat p) i idxs" by simp
  qed
  show ?thesis
    unfolding sorted_so_far_def using 1 2 3 4 by (intro conjI)
qed

lemma sorted_so_far_mark_temp:
  assumes "sorted_so_far nodes l idxs" "flag (nodes ! i) = UNMARKED"
  shows "sorted_so_far (nodes[i := (nodes ! i)\<lparr>flag := MARK_TEMP\<rparr>]) l idxs"
proof (rule sorted_so_far_transfer[OF assms(1)])
  show "shape (nodes[i := (nodes ! i)\<lparr>flag := MARK_TEMP\<rparr>]) = shape nodes"
    by (rule shape_mark')
  show "\<forall>k<length nodes. (flag (nodes[i := (nodes ! i)\<lparr>flag := MARK_TEMP\<rparr>] ! k) = MARK_PERMANENT) =
          (flag (nodes ! k) = MARK_PERMANENT)"
    using assms(2) by (auto simp: flag_mark_nth)
qed

text \<open>Marking a temporary node permanent once all its parents are listed.\<close>

lemma sorted_so_far_mark_permanent:
  assumes inv: "sorted_so_far nodes l idxs" and i: "i < length nodes"
      and t: "flag (nodes ! i) = MARK_TEMP"
      and ps: "\<forall>p \<in> set (parentNodes (nodes ! i)).
                 0 \<le> p \<and> nat p < length nodes \<and> flag (nodes ! nat p) = MARK_PERMANENT"
  shows "sorted_so_far (nodes[i := (nodes ! i)\<lparr>flag := MARK_PERMANENT\<rparr>])
           (l @ [node_name (nodes ! i)]) (idxs @ [i])"
proof -
  let ?b = "nodes[i := (nodes ! i)\<lparr>flag := MARK_PERMANENT\<rparr>]"
  have sh: "shape ?b = shape nodes" by (rule shape_mark')
  have nth: "\<And>k. k < length nodes \<Longrightarrow> node_name (?b ! k) = node_name (nodes ! k) \<and>
                                   parentNodes (?b ! k) = parentNodes (nodes ! k)"
    using shape_nth[OF sh] by simp
  have in_a: "\<And>k. k \<in> set idxs \<Longrightarrow> k < length nodes"
    using sorted_so_far_idx[OF inv] .
  have notin: "i \<notin> set idxs"
    using sorted_so_far_perm[OF inv i] t by simp
  have i1: "l = map (\<lambda>i. node_name (nodes ! i)) idxs" and i2: "distinct idxs"
    and i3: "set idxs = {i. i < length nodes \<and> flag (nodes ! i) = MARK_PERMANENT}"
    and i4: "\<forall>i \<in> set idxs. \<forall>p \<in> set (parentNodes (nodes ! i)).
             0 \<le> p \<and> nat p < length nodes \<and> precedes (nat p) i idxs"
    using inv by (simp_all add: sorted_so_far_def)
  have 1: "l @ [node_name (nodes ! i)] = map (\<lambda>k. node_name (?b ! k)) (idxs @ [i])"
  proof -
    have "map (\<lambda>k. node_name (?b ! k)) idxs = map (\<lambda>k. node_name (nodes ! k)) idxs"
      by (rule map_cong) (simp_all add: nth in_a)
    with i1 nth[OF i] show ?thesis by simp
  qed
  have 2: "distinct (idxs @ [i])" using i2 notin by simp
  have "{k. k < length ?b \<and> flag (?b ! k) = MARK_PERMANENT} =
        insert i {k. k < length nodes \<and> flag (nodes ! k) = MARK_PERMANENT}"
    using i by (auto simp: flag_mark_nth)
  with i3 have 3: "set (idxs @ [i]) = {k. k < length ?b \<and> flag (?b ! k) = MARK_PERMANENT}"
    by simp
  have 4: "\<forall>k \<in> set (idxs @ [i]). \<forall>p \<in> set (parentNodes (?b ! k)).
             0 \<le> p \<and> nat p < length ?b \<and> precedes (nat p) k (idxs @ [i])"
  proof (intro ballI)
    fix k p assume k: "k \<in> set (idxs @ [i])" and p: "p \<in> set (parentNodes (?b ! k))"
    show "0 \<le> p \<and> nat p < length ?b \<and> precedes (nat p) k (idxs @ [i])"
    proof (cases "k = i")
      case True
      with p nth[OF i] have "p \<in> set (parentNodes (nodes ! i))" by simp
      with ps have a: "0 \<le> p" "nat p < length nodes" "flag (nodes ! nat p) = MARK_PERMANENT" by auto
      then have "nat p \<in> set idxs" using sorted_so_far_perm[OF inv] by simp
      from precedes_snoc[OF this] a True show ?thesis by simp
    next
      case False
      with k have kin: "k \<in> set idxs" by simp
      with p nth[OF in_a[OF kin]] have "p \<in> set (parentNodes (nodes ! k))" by simp
      with i4 kin have "0 \<le> p \<and> nat p < length nodes \<and> precedes (nat p) k idxs"
        by simp
      then show ?thesis using precedes_append[of "nat p" k idxs "[i]"] by simp
    qed
  qed
  show ?thesis
    unfolding sorted_so_far_def using 1 2 3 4 by (intro conjI)
qed

lemma visit_ok_refl: "sorted_so_far (fst s) (snd s) idxs \<Longrightarrow> visit_ok s idxs s []"
  by (simp add: visit_ok_def)

lemma visit_ok_trans:
  assumes "visit_ok s idxs s1 n1" "visit_ok s1 (idxs @ n1) s2 n2"
  shows "visit_ok s idxs s2 (n1 @ n2)"
proof -
  have inv1: "sorted_so_far (fst s1) (snd s1) (idxs @ n1)" and sh1: "shape (fst s1) = shape (fst s)"
    and t1: "\<And>k. k < length (fst s) \<Longrightarrow> flag (fst s1 ! k) = MARK_TEMP \<longleftrightarrow> flag (fst s ! k) = MARK_TEMP"
    using assms(1) unfolding visit_ok_def by blast+
  have inv2: "sorted_so_far (fst s2) (snd s2) ((idxs @ n1) @ n2)" and sh2: "shape (fst s2) = shape (fst s1)"
    and t2: "\<And>k. k < length (fst s1) \<Longrightarrow> flag (fst s2 ! k) = MARK_TEMP \<longleftrightarrow> flag (fst s1 ! k) = MARK_TEMP"
    using assms(2) unfolding visit_ok_def by blast+
  have len: "length (fst s1) = length (fst s)"
    using shape_length[OF sh1] .
  have a: "sorted_so_far (fst s2) (snd s2) (idxs @ n1 @ n2)" using inv2 by simp
  have b: "shape (fst s2) = shape (fst s)" using sh1 sh2 by simp
  have c: "\<forall>k < length (fst s). flag (fst s2 ! k) = MARK_TEMP \<longleftrightarrow> flag (fst s ! k) = MARK_TEMP"
  proof (intro allI impI)
    fix k assume k: "k < length (fst s)"
    with len have "k < length (fst s1)" by simp
    from t2[OF this] t1[OF k] show "flag (fst s2 ! k) = MARK_TEMP \<longleftrightarrow> flag (fst s ! k) = MARK_TEMP"
      by simp
  qed
  show ?thesis unfolding visit_ok_def using a b c by (intro conjI)
qed

lemma visitNode_parents_inv:
  assumes V: "\<And>j s idxs s'. j < length (fst s) \<Longrightarrow> sorted_so_far (fst s) (snd s) idxs \<Longrightarrow>
                visit j s = Inr (True, s') \<Longrightarrow>
                \<exists>new. visit_ok s idxs s' new \<and> flag (fst s' ! j) = MARK_PERMANENT"
  shows "sorted_so_far (fst s) (snd s) idxs \<Longrightarrow> visitNode_parents visit ps s = Inr (True, s') \<Longrightarrow>
         \<exists>new. visit_ok s idxs s' new \<and>
               (\<forall>p \<in> set ps. 0 \<le> p \<and> nat p < length (fst s) \<and>
                               flag (fst s' ! nat p) = MARK_PERMANENT)"
proof (induction ps arbitrary: s idxs)
  case Nil
  then have "s' = s" by simp
  with visit_ok_refl[OF Nil.prems(1)] show ?case
    by (intro exI[of _ "[]"]) simp
next
  case (Cons p ps)
  have inr: "\<not> (p < 0 \<or> int (length (fst s)) \<le> p)"
    using Cons.prems(2) by (auto split: if_splits)
  then have pr: "0 \<le> p" "nat p < length (fst s)" by auto
  from Cons.prems(2) inr have
    c: "(case visit (nat p) s of Inl f \<Rightarrow> Inl f
         | Inr (ok, s1) \<Rightarrow> if \<not> ok then Inr (False, s1) else visitNode_parents visit ps s1)
        = Inr (True, s')"
    by simp
  then obtain ok s1 where v: "visit (nat p) s = Inr (ok, s1)"
    by (cases "visit (nat p) s") auto
  with c have ok: "ok" and rest: "visitNode_parents visit ps s1 = Inr (True, s')"
    by (auto split: if_splits)
  from v ok have v': "visit (nat p) s = Inr (True, s1)" by simp
  from V[OF pr(2) Cons.prems(1) v'] obtain n1 where
    o1: "visit_ok s idxs s1 n1" and p1: "flag (fst s1 ! nat p) = MARK_PERMANENT" by blast
  have inv1: "sorted_so_far (fst s1) (snd s1) (idxs @ n1)" and sh1: "shape (fst s1) = shape (fst s)"
    using o1 unfolding visit_ok_def by blast+
  have len1: "length (fst s1) = length (fst s)"
    using shape_length[OF sh1] .
  from Cons.IH[OF inv1 rest] obtain n2 where
    o2: "visit_ok s1 (idxs @ n1) s' n2"
    and p2: "\<forall>q \<in> set ps. 0 \<le> q \<and> nat q < length (fst s1) \<and> flag (fst s' ! nat q) = MARK_PERMANENT"
    by blast
  have o: "visit_ok s idxs s' (n1 @ n2)" using visit_ok_trans[OF o1 o2] .
  have inv': "sorted_so_far (fst s') (snd s') (idxs @ n1 @ n2)" and sh': "shape (fst s') = shape (fst s)"
    using o unfolding visit_ok_def by blast+
  have len': "length (fst s') = length (fst s)"
    using shape_length[OF sh'] .
  have "nat p \<in> set (idxs @ n1)"
    using sorted_so_far_perm[OF inv1, of "nat p"] pr(2) len1 p1 by simp
  then have "nat p \<in> set (idxs @ n1 @ n2)" by auto
  then have p': "flag (fst s' ! nat p) = MARK_PERMANENT"
    using sorted_so_far_perm[OF inv', of "nat p"] pr(2) len' by simp
  have all: "\<forall>q \<in> set (p # ps). 0 \<le> q \<and> nat q < length (fst s) \<and>
               flag (fst s' ! nat q) = MARK_PERMANENT"
    using pr p' p2 len1 by simp
  from o all show ?case by blast
qed

lemma visitNode_inv:
  "i < length (fst s) \<Longrightarrow> sorted_so_far (fst s) (snd s) idxs \<Longrightarrow>
   visitNode fuel i s = Inr (True, s') \<Longrightarrow>
   \<exists>new. visit_ok s idxs s' new \<and> flag (fst s' ! i) = MARK_PERMANENT"
proof (induction fuel arbitrary: i s idxs s')
  case 0
  then show ?case by simp
next
  case (Suc fuel)
  obtain nodes l where s: "s = (nodes, l)" by force
  have i: "i < length nodes" using Suc.prems(1) s by simp
  have inv: "sorted_so_far nodes l idxs" using Suc.prems(2) s by simp
  show ?case
  proof (cases "flag (nodes ! i)")
    case MARK_PERMANENT
    with Suc.prems(3) s have "s' = s" by simp
    with MARK_PERMANENT s visit_ok_refl[OF Suc.prems(2)] show ?thesis by auto
  next
    case MARK_TEMP
    with Suc.prems(3) s show ?thesis by simp
  next
    case UNMARKED
    define nodes1 where "nodes1 = nodes[i := (nodes ! i)\<lparr>flag := MARK_TEMP\<rparr>]"
    have sh1: "shape nodes1 = shape nodes" by (simp add: nodes1_def shape_mark')
    have len1: "length nodes1 = length nodes" by (simp add: nodes1_def)
    have inv1: "sorted_so_far (fst (nodes1, l)) (snd (nodes1, l)) idxs"
      using sorted_so_far_mark_temp[OF inv UNMARKED] by (simp add: nodes1_def)
    have par1: "parentNodes (nodes ! i) = parentNodes (nodes1 ! i)"
      using shape_nth[OF sh1] i len1 by simp
    from Suc.prems(3) s UNMARKED obtain nodes2 l2 where
      r: "visitNode_parents (visitNode fuel) (parentNodes (nodes ! i)) (nodes1, l) = Inr (True, nodes2, l2)"
      and s': "s' = (nodes2[i := (nodes2 ! i)\<lparr>flag := MARK_PERMANENT\<rparr>], l2 @ [node_name (nodes2 ! i)])"
      by (auto simp: nodes1_def[symmetric] split: sum.splits if_splits)
    have "\<exists>new. visit_ok (nodes1, l) idxs (nodes2, l2) new \<and>
            (\<forall>p \<in> set (parentNodes (nodes ! i)). 0 \<le> p \<and> nat p < length (fst (nodes1, l)) \<and>
                 flag (fst (nodes2, l2) ! nat p) = MARK_PERMANENT)"
      by (rule visitNode_parents_inv[where visit="visitNode fuel", OF Suc.IH inv1 r])
    then obtain n1 where o1: "visit_ok (nodes1, l) idxs (nodes2, l2) n1"
      and ps: "\<forall>p \<in> set (parentNodes (nodes ! i)). 0 \<le> p \<and> nat p < length nodes1 \<and>
                 flag (nodes2 ! nat p) = MARK_PERMANENT"
      by auto
    have inv2: "sorted_so_far nodes2 l2 (idxs @ n1)" and sh2: "shape nodes2 = shape nodes1"
      and tmp2: "\<forall>k < length nodes1. flag (nodes2 ! k) = MARK_TEMP \<longleftrightarrow> flag (nodes1 ! k) = MARK_TEMP"
      using o1 by (simp_all add: visit_ok_def)
    have len2: "length nodes2 = length nodes" using shape_length[OF sh2] len1 by simp
    have i2: "i < length nodes2" using i len2 by simp
    have t2: "flag (nodes2 ! i) = MARK_TEMP"
      using tmp2 i len1 by (simp add: nodes1_def flag_mark_nth)
    have par2: "parentNodes (nodes2 ! i) = parentNodes (nodes ! i)"
      using shape_nth[OF sh2] i2 par1 by simp
    have ps2: "\<forall>p \<in> set (parentNodes (nodes2 ! i)).
                 0 \<le> p \<and> nat p < length nodes2 \<and> flag (nodes2 ! nat p) = MARK_PERMANENT"
      using ps par2 len1 len2 by simp
    define nodes3 where "nodes3 = nodes2[i := (nodes2 ! i)\<lparr>flag := MARK_PERMANENT\<rparr>]"
    have inv3: "sorted_so_far nodes3 (l2 @ [node_name (nodes2 ! i)]) ((idxs @ n1) @ [i])"
      unfolding nodes3_def by (rule sorted_so_far_mark_permanent[OF inv2 i2 t2 ps2])
    have sh3: "shape nodes3 = shape nodes"
      using sh2 sh1 by (simp add: nodes3_def shape_mark')
    have tmp3: "\<forall>k < length nodes. flag (nodes3 ! k) = MARK_TEMP \<longleftrightarrow> flag (nodes ! k) = MARK_TEMP"
    proof (intro allI impI)
      fix k assume k: "k < length nodes"
      show "flag (nodes3 ! k) = MARK_TEMP \<longleftrightarrow> flag (nodes ! k) = MARK_TEMP"
      proof (cases "k = i")
        case True
        then show ?thesis using UNMARKED i2 by (simp add: nodes3_def flag_mark_nth)
      next
        case False
        have "flag (nodes3 ! k) = flag (nodes2 ! k)"
          using False k len2 by (simp add: nodes3_def flag_mark_nth)
        moreover have "flag (nodes1 ! k) = flag (nodes ! k)"
          using False k by (simp add: nodes1_def flag_mark_nth)
        ultimately show ?thesis using tmp2 k len1 by simp
      qed
    qed
    have p3: "flag (nodes3 ! i) = MARK_PERMANENT"
      using i2 by (simp add: nodes3_def flag_mark_nth)
    have "visit_ok s idxs s' (n1 @ [i])"
      unfolding visit_ok_def using inv3 sh3 tmp3 s s' by (simp add: nodes3_def)
    with p3 s' show ?thesis by (auto simp: nodes3_def)
  qed
qed

lemma topologicalSort_loop_error:
  "topologicalSort_loop fuel is s = Inr (True, l) \<Longrightarrow> l = []"
proof (induction "is" arbitrary: s)
  case Nil
  then show ?case by simp
next
  case (Cons i rest)
  show ?case
  proof (cases "flag (fst s ! i) = UNMARKED")
    case False
    with Cons show ?thesis by simp
  next
    case True
    with Cons.prems obtain ok s1 where v: "visitNode fuel i s = Inr (ok, s1)"
      by (cases "visitNode fuel i s") auto
    show ?thesis
    proof (cases ok)
      case False
      with True v Cons.prems show ?thesis by simp
    next
      case ok: True
      with True v Cons.prems have "topologicalSort_loop fuel rest s1 = Inr (True, l)" by simp
      then show ?thesis by (rule Cons.IH)
    qed
  qed
qed

lemma topologicalSort_loop_total:
  "\<forall>i \<in> set is. i < length (fst s) \<Longrightarrow> parents_in_range (fst s) \<Longrightarrow>
   card (unmarked (fst s)) < fuel \<Longrightarrow> \<exists>r. topologicalSort_loop fuel is s = Inr r"
proof (induction "is" arbitrary: s)
  case Nil
  then show ?case by auto
next
  case (Cons i rest)
  have rest: "\<forall>i \<in> set rest. i < length (fst s)" using Cons.prems(1) by simp
  show ?case
  proof (cases "flag (fst s ! i) = UNMARKED")
    case False
    with Cons.IH[OF rest Cons.prems(2,3)] show ?thesis by simp
  next
    case True
    have i: "i < length (fst s)" using Cons.prems(1) by simp
    from visitNode_total[OF i Cons.prems(2,3)] obtain ok s1 where
      v: "visitNode fuel i s = Inr (ok, s1)" and sh: "shape (fst s1) = shape (fst s)"
      and un: "unmarked (fst s1) \<subseteq> unmarked (fst s)" by blast
    show ?thesis
    proof (cases ok)
      case False
      with True v show ?thesis by auto
    next
      case ok: True
      have 1: "\<forall>i \<in> set rest. i < length (fst s1)"
        using rest shape_length[OF sh] by simp
      have 2: "parents_in_range (fst s1)"
        using parents_in_range_shape[OF sh] Cons.prems(2) by simp
      have 3: "card (unmarked (fst s1)) < fuel"
        using card_mono[OF finite_unmarked un] Cons.prems(3) by simp
      from Cons.IH[OF 1 2 3] True v ok show ?thesis by simp
    qed
  qed
qed

lemma topologicalSort_loop_inv:
  "\<forall>i \<in> set is. i < length (fst s) \<Longrightarrow> sorted_so_far (fst s) (snd s) idxs \<Longrightarrow>
   \<forall>k < length (fst s). flag (fst s ! k) \<noteq> MARK_TEMP \<Longrightarrow>
   topologicalSort_loop fuel is s = Inr (False, l') \<Longrightarrow>
   \<exists>nodes' idxs'. sorted_so_far nodes' l' idxs' \<and> shape nodes' = shape (fst s) \<and>
                  set idxs \<subseteq> set idxs' \<and> set is \<subseteq> set idxs'"
proof (induction "is" arbitrary: s idxs)
  case Nil
  then have "l' = snd s" by simp
  with Nil.prems(2) show ?case by auto
next
  case (Cons i rest)
  have rest: "\<forall>i \<in> set rest. i < length (fst s)" and i: "i < length (fst s)"
    using Cons.prems(1) by simp_all
  show ?case
  proof (cases "flag (fst s ! i) = UNMARKED")
    case False
    with Cons.prems(4) have "topologicalSort_loop fuel rest s = Inr (False, l')" by simp
    from Cons.IH[OF rest Cons.prems(2,3) this] obtain nodes' idxs' where
      r: "sorted_so_far nodes' l' idxs'" "shape nodes' = shape (fst s)"
         "set idxs \<subseteq> set idxs'" "set rest \<subseteq> set idxs'" by blast
    have "flag (fst s ! i) = MARK_PERMANENT"
      using False Cons.prems(3) i by (cases "flag (fst s ! i)") auto
    then have "i \<in> set idxs" using sorted_so_far_perm[OF Cons.prems(2) i] by simp
    with r(3,4) have 5: "set (i # rest) \<subseteq> set idxs'" by auto
    from r(1,2,3) 5 show ?thesis by blast
  next
    case True
    with Cons.prems(4) obtain ok s1 where v: "visitNode fuel i s = Inr (ok, s1)"
      by (cases "visitNode fuel i s") auto
    with True Cons.prems(4) have ok: "ok" and l: "topologicalSort_loop fuel rest s1 = Inr (False, l')"
      by (auto split: if_splits)
    from v ok have v': "visitNode fuel i s = Inr (True, s1)" by simp
    from visitNode_inv[OF i Cons.prems(2) v'] obtain new where
      o: "visit_ok s idxs s1 new" and p: "flag (fst s1 ! i) = MARK_PERMANENT" by blast
    have inv1: "sorted_so_far (fst s1) (snd s1) (idxs @ new)" and sh1: "shape (fst s1) = shape (fst s)"
      and t1: "\<And>k. k < length (fst s) \<Longrightarrow> flag (fst s1 ! k) = MARK_TEMP \<longleftrightarrow> flag (fst s ! k) = MARK_TEMP"
      using o unfolding visit_ok_def by blast+
    have len1: "length (fst s1) = length (fst s)" using shape_length[OF sh1] .
    have 1: "\<forall>i \<in> set rest. i < length (fst s1)" using rest len1 by simp
    have 3: "\<forall>k < length (fst s1). flag (fst s1 ! k) \<noteq> MARK_TEMP"
      using t1 Cons.prems(3) len1 by simp
    from Cons.IH[OF 1 inv1 3 l] obtain nodes' idxs' where
      r: "sorted_so_far nodes' l' idxs'" "shape nodes' = shape (fst s1)"
         "set (idxs @ new) \<subseteq> set idxs'" "set rest \<subseteq> set idxs'" by blast
    have "i \<in> set (idxs @ new)"
      using sorted_so_far_perm[OF inv1, of i] i len1 p by simp
    with r(3) have 5: "set idxs \<subseteq> set idxs'" "set (i # rest) \<subseteq> set idxs'"
      using r(4) by auto
    have 6: "shape nodes' = shape (fst s)" using r(2) sh1 by simp
    from r(1) 6 5 show ?thesis by blast
  qed
qed

text \<open>
  A sort that succeeds on a list of unmarked nodes returns the names of all the nodes,
  each once, with every parent of a node in range and before the node.
\<close>

lemma topologicalSort_sorted:
  assumes unm: "\<forall>n \<in> set nodeList. flag n = UNMARKED"
      and res: "topologicalSort fuel nodeList = Inr (False, order)"
  shows "\<exists>idxs. order = map (\<lambda>i. node_name (nodeList ! i)) idxs \<and> distinct idxs \<and>
           set idxs = {..<length nodeList} \<and>
           (\<forall>i < length nodeList. \<forall>p \<in> set (parentNodes (nodeList ! i)).
              0 \<le> p \<and> nat p < length nodeList \<and> precedes (nat p) i idxs)"
proof -
  let ?s = "(nodeList, [] :: string list)"
  have fl: "\<And>k. k < length nodeList \<Longrightarrow> flag (nodeList ! k) = UNMARKED"
    using unm by simp
  have 1: "\<forall>i \<in> set [0..<length nodeList]. i < length (fst ?s)" by simp
  have 2: "sorted_so_far (fst ?s) (snd ?s) []"
    using fl by (auto simp: sorted_so_far_def)
  have 3: "\<forall>k < length (fst ?s). flag (fst ?s ! k) \<noteq> MARK_TEMP"
    using fl by simp
  have 4: "topologicalSort_loop fuel [0..<length nodeList] ?s = Inr (False, order)"
    using res by (simp add: topologicalSort_def)
  from topologicalSort_loop_inv[OF 1 2 3 4] obtain nodes' idxs where
    inv: "sorted_so_far nodes' order idxs" and sh: "shape nodes' = shape nodeList"
    and all: "set [0..<length nodeList] \<subseteq> set idxs" by auto
  have len: "length nodes' = length nodeList" using shape_length[OF sh] .
  have nth: "\<And>k. k < length nodeList \<Longrightarrow> node_name (nodes' ! k) = node_name (nodeList ! k) \<and>
                                   parentNodes (nodes' ! k) = parentNodes (nodeList ! k)"
    using shape_nth[OF sh] len by simp
  have i1: "order = map (\<lambda>i. node_name (nodes' ! i)) idxs" and i2: "distinct idxs"
    and i4: "\<forall>i \<in> set idxs. \<forall>p \<in> set (parentNodes (nodes' ! i)).
             0 \<le> p \<and> nat p < length nodes' \<and> precedes (nat p) i idxs"
    using inv by (simp_all add: sorted_so_far_def)
  have in_n: "\<And>k. k \<in> set idxs \<Longrightarrow> k < length nodeList"
    using sorted_so_far_idx[OF inv] len by simp
  have a: "order = map (\<lambda>i. node_name (nodeList ! i)) idxs"
  proof -
    have "map (\<lambda>i. node_name (nodes' ! i)) idxs = map (\<lambda>i. node_name (nodeList ! i)) idxs"
      by (rule map_cong) (simp_all add: nth in_n)
    with i1 show ?thesis by simp
  qed
  have b: "set idxs = {..<length nodeList}"
    using all in_n by auto
  have c: "\<forall>i < length nodeList. \<forall>p \<in> set (parentNodes (nodeList ! i)).
              0 \<le> p \<and> nat p < length nodeList \<and> precedes (nat p) i idxs"
  proof (intro allI impI ballI)
    fix i p assume i: "i < length nodeList" and p: "p \<in> set (parentNodes (nodeList ! i))"
    from i b have "i \<in> set idxs" by simp
    moreover from p nth[OF i] have "p \<in> set (parentNodes (nodes' ! i))" by simp
    ultimately show "0 \<le> p \<and> nat p < length nodeList \<and> precedes (nat p) i idxs"
      using i4 len by simp
  qed
  from a i2 b c show ?thesis by blast
qed

lemma precedes_trans:
  assumes "distinct xs" "precedes a b xs" "precedes b c xs"
  shows "precedes a c xs"
proof -
  from assms(2) obtain k1 k2 where 1: "k1 < k2" "k2 < length xs" "xs ! k1 = a" "xs ! k2 = b"
    unfolding precedes_def by auto
  from assms(3) obtain k3 k4 where 2: "k3 < k4" "k4 < length xs" "xs ! k3 = b" "xs ! k4 = c"
    unfolding precedes_def by auto
  have "k3 < length xs" using 2 by simp
  from nth_eq_iff_index_eq[OF assms(1) 1(2) this] 1(4) 2(3) have "k2 = k3" by simp
  with 1 2 have "k1 < k4" by simp
  with 1 2 show ?thesis unfolding precedes_def by blast
qed

lemma precedes_irrefl: "distinct xs \<Longrightarrow> \<not> precedes a a xs"
proof
  assume d: "distinct xs" and "precedes a a xs"
  then obtain k1 k2 where k: "k1 < k2" "k2 < length xs" "xs ! k1 = a" "xs ! k2 = a"
    unfolding precedes_def by auto
  then have "k1 < length xs" by simp
  from nth_eq_iff_index_eq[OF d this k(2)] k show False by simp
qed

lemma sorted_acyclic:
  assumes d: "distinct idxs"
      and e: "\<forall>i < length nodeList. \<forall>p \<in> set (parentNodes (nodeList ! i)).
                0 \<le> p \<and> nat p < length nodeList \<and> precedes (nat p) i idxs"
  shows "\<not> has_cycle nodeList"
proof
  assume "has_cycle nodeList"
  then obtain i where c: "(i, i) \<in> (edges nodeList)\<^sup>+" by (auto simp: has_cycle_def)
  have step: "\<And>a b. (a, b) \<in> edges nodeList \<Longrightarrow> precedes b a idxs"
    using e by (fastforce simp: edges_def)
  have "\<And>a b. (a, b) \<in> (edges nodeList)\<^sup>+ \<Longrightarrow> precedes b a idxs"
  proof -
    fix a b assume "(a, b) \<in> (edges nodeList)\<^sup>+"
    then show "precedes b a idxs"
    proof (induction rule: trancl_induct)
      case (base y)
      then show ?case by (rule step)
    next
      case (step y z)
      from precedes_trans[OF d \<open>(y, z) \<in> edges nodeList\<close>[THEN \<open>\<And>a b. (a, b) \<in> edges nodeList \<Longrightarrow> precedes b a idxs\<close>] step.IH]
      show ?case .
    qed
  qed
  from this[OF c] precedes_irrefl[OF d] show False by blast
qed

text \<open>
  C5. The node list is as \<open>loadPlugins\<close> builds it: every node unmarked, every parent
  index an index of the list. If its edges contain a cycle, the sort, given more fuel
  than there are nodes, returns: the error flag is set and the list is empty.
\<close>

theorem topologicalSort_cycle:
  assumes "\<forall>n \<in> set nodeList. flag n = UNMARKED"
      and "parents_in_range nodeList"
      and "has_cycle nodeList"
      and "length nodeList < fuel"
  shows "topologicalSort fuel nodeList = Inr (True, [])"
proof -
  let ?s = "(nodeList, [] :: string list)"
  have "unmarked nodeList \<subseteq> {..<length nodeList}" by (auto simp: unmarked_def)
  then have "card (unmarked nodeList) \<le> length nodeList"
    using card_mono[of "{..<length nodeList}" "unmarked nodeList"] by simp
  with assms(4) have c: "card (unmarked (fst ?s)) < fuel" by simp
  have 1: "\<forall>i \<in> set [0..<length nodeList]. i < length (fst ?s)" by simp
  have 2: "parents_in_range (fst ?s)" using assms(2) by simp
  from topologicalSort_loop_total[OF 1 2 c] obtain err l where
    r: "topologicalSort fuel nodeList = Inr (err, l)"
    by (auto simp: topologicalSort_def)
  show ?thesis
  proof (cases err)
    case True
    with r topologicalSort_loop_error[of fuel "[0..<length nodeList]" ?s l] show ?thesis
      by (simp add: topologicalSort_def)
  next
    case False
    with r have "topologicalSort fuel nodeList = Inr (False, l)" by simp
    from topologicalSort_sorted[OF assms(1) this] obtain idxs where
      "distinct idxs"
      "\<forall>i < length nodeList. \<forall>p \<in> set (parentNodes (nodeList ! i)).
              0 \<le> p \<and> nat p < length nodeList \<and> precedes (nat p) i idxs"
      by blast
    from sorted_acyclic[OF this] assms(3) show ?thesis by simp
  qed
qed

theorem topologicalSort_cycle_witness:
  "map flag ex_cycle = [UNMARKED, UNMARKED, UNMARKED, UNMARKED] \<and> parents_in_range ex_cycle \<and>
   has_cycle ex_cycle \<and> length ex_cycle < 5 \<and> topologicalSort 5 ex_cycle = Inr (True, [])"
proof -
  have 0: "map flag ex_cycle = [UNMARKED, UNMARKED, UNMARKED, UNMARKED]"
    by (simp add: ex_cycle_def Node_new_def)
  have 1: "\<forall>n \<in> set ex_cycle. flag n = UNMARKED"
    by (simp add: ex_cycle_def Node_new_def)
  have 2: "parents_in_range ex_cycle"
    by (simp add: parents_in_range_def ex_cycle_def Node_new_def)
  have e: "(0, 1) \<in> edges ex_cycle" "(1, 2) \<in> edges ex_cycle" "(2, 0) \<in> edges ex_cycle"
    by (simp_all add: edges_def ex_cycle_def Node_new_def)
  have "(0, 0) \<in> (edges ex_cycle)\<^sup>+"
    using e by (meson trancl.simps)
  then have 3: "has_cycle ex_cycle" unfolding has_cycle_def by (rule exI)
  have 4: "length ex_cycle < 5" by (simp add: ex_cycle_def)
  from topologicalSort_cycle[OF 1 2 3 4] 0 2 3 4 show ?thesis by simp
qed

section \<open>Properties of loading all plugins\<close>

lemma map_of_view: "map_of (map (\<lambda>kp. (fst kp, f (snd kp))) m) k = map_option f (map_of m k)"
  by (induction m) auto

lemma keeps_field: "keeps f s s' \<Longrightarrow> field_of f s' = field_of f s"
proof
  fix k assume "keeps f s s'"
  then have "map (\<lambda>kp. (fst kp, f (snd kp))) (pluginsMap s') =
             map (\<lambda>kp. (fst kp, f (snd kp))) (pluginsMap s)"
    unfolding keeps_def by (elim conjE)
  then have "map_of (map (\<lambda>kp. (fst kp, f (snd kp))) (pluginsMap s')) k =
             map_of (map (\<lambda>kp. (fst kp, f (snd kp))) (pluginsMap s)) k" by simp
  then show "field_of f s' k = field_of f s k"
    by (simp add: map_of_view field_of_def)
qed

lemma keeps_keys: "keeps f s s' \<Longrightarrow> map fst (pluginsMap s') = map fst (pluginsMap s)"
proof -
  assume "keeps f s s'"
  then have "map (\<lambda>kp. (fst kp, f (snd kp))) (pluginsMap s') =
             map (\<lambda>kp. (fst kp, f (snd kp))) (pluginsMap s)"
    unfolding keeps_def by (elim conjE)
  then have "map fst (map (\<lambda>kp. (fst kp, f (snd kp))) (pluginsMap s')) =
             map fst (map (\<lambda>kp. (fst kp, f (snd kp))) (pluginsMap s))" by simp
  then show ?thesis by (simp add: comp_def)
qed

lemma map_fst_map_entry: "map fst (AList.map_entry k g m) = map fst m"
  by (induction m) auto

lemma keeps_set_graphId:
  "(\<And>p v. f (p\<lparr>graphId := v\<rparr>) = f p) \<Longrightarrow> keeps f s (set_graphId key v s)"
  by (simp add: keeps_def set_graphId_def map_entry_view loaded_calls_def)

lemma field_set_graphId:
  "k \<in> set (map fst (pluginsMap st)) \<Longrightarrow>
   field_of graphId (set_graphId k v st) = (field_of graphId st)(k \<mapsto> v)"
proof
  fix x assume k: "k \<in> set (map fst (pluginsMap st))"
  then obtain p where "map_of (pluginsMap st) k = Some p"
    by (metis map_of_eq_None_iff not_Some_eq set_map)
  then show "field_of graphId (set_graphId k v st) x = ((field_of graphId st)(k \<mapsto> v)) x"
    by (simp add: field_of_def set_graphId_def map_of_map_entry)
qed

lemma graph_ids_ok_skip:
  assumes "graph_ids_ok st nodeList D" "k \<notin> D"
      and "field_of graphId st' = (field_of graphId st)(k \<mapsto> - 1)"
  shows "graph_ids_ok st' nodeList (insert k D)"
  using assms unfolding graph_ids_ok_def by auto

lemma graph_ids_ok_push:
  assumes "graph_ids_ok st nodeList D" "k \<notin> D"
      and "field_of graphId st' = (field_of graphId st)(k \<mapsto> int (length nodeList))"
  shows "graph_ids_ok st' (nodeList @ [Node_new k]) (insert k D)"
proof -
  have 1: "\<forall>n \<in> set (nodeList @ [Node_new k]). flag n = UNMARKED \<and> parentNodes n = []"
    using assms(1) unfolding graph_ids_ok_def by (auto simp: Node_new_def)
  have 2: "\<forall>k' \<in> insert k D. field_of graphId st' k' = Some (- 1) \<or>
             (\<exists>i < length (nodeList @ [Node_new k]). field_of graphId st' k' = Some (int i) \<and>
                  node_name ((nodeList @ [Node_new k]) ! i) = k')"
  proof
    fix k' assume k': "k' \<in> insert k D"
    show "field_of graphId st' k' = Some (- 1) \<or>
             (\<exists>i < length (nodeList @ [Node_new k]). field_of graphId st' k' = Some (int i) \<and>
                  node_name ((nodeList @ [Node_new k]) ! i) = k')"
    proof (cases "k' = k")
      case True
      have "length nodeList < length (nodeList @ [Node_new k]) \<and>
            field_of graphId st' k' = Some (int (length nodeList)) \<and>
            node_name ((nodeList @ [Node_new k]) ! length nodeList) = k'"
        using True assms(3) by (simp add: Node_new_def)
      then show ?thesis by blast
    next
      case False
      with k' have d: "k' \<in> D" by simp
      from False assms(3) have same: "field_of graphId st' k' = field_of graphId st k'" by simp
      from assms(1) d have "field_of graphId st k' = Some (- 1) \<or>
           (\<exists>i < length nodeList. field_of graphId st k' = Some (int i) \<and> node_name (nodeList ! i) = k')"
        unfolding graph_ids_ok_def by blast
      then show ?thesis
      proof
        assume "field_of graphId st k' = Some (- 1)"
        with same show ?thesis by simp
      next
        assume "\<exists>i < length nodeList. field_of graphId st k' = Some (int i) \<and> node_name (nodeList ! i) = k'"
        then obtain i where "i < length nodeList" "field_of graphId st k' = Some (int i)"
          "node_name (nodeList ! i) = k'" by blast
        with same have "i < length (nodeList @ [Node_new k]) \<and> field_of graphId st' k' = Some (int i) \<and>
                  node_name ((nodeList @ [Node_new k]) ! i) = k'"
          by (simp add: nth_append)
        then show ?thesis by blast
      qed
    qed
  qed
  have 3: "\<forall>i < length (nodeList @ [Node_new k]).
             node_name ((nodeList @ [Node_new k]) ! i) \<in> insert k D \<and>
             field_of graphId st' (node_name ((nodeList @ [Node_new k]) ! i)) = Some (int i)"
  proof (intro allI impI)
    fix i assume i: "i < length (nodeList @ [Node_new k])"
    show "node_name ((nodeList @ [Node_new k]) ! i) \<in> insert k D \<and>
             field_of graphId st' (node_name ((nodeList @ [Node_new k]) ! i)) = Some (int i)"
    proof (cases "i < length nodeList")
      case True
      with assms(1) have a: "node_name (nodeList ! i) \<in> D"
        "field_of graphId st (node_name (nodeList ! i)) = Some (int i)"
        unfolding graph_ids_ok_def by blast+
      with assms(2) have "node_name (nodeList ! i) \<noteq> k" by auto
      with a assms(3) True show ?thesis by (simp add: nth_append)
    next
      case False
      with i have "i = length nodeList" by simp
      with assms(3) show ?thesis by (simp add: Node_new_def)
    qed
  qed
  show ?thesis unfolding graph_ids_ok_def using 1 2 3 by (intro conjI)
qed

lemma loadPlugins_check_step:
  assumes "checkDependencies fuel e cb k (set_graphId k (- 1) st) = Inr (retCode, st2)"
      and "\<not> (\<not> ttc \<and> \<not> rc_bool retCode)"
      and "map_of (pluginsMap st2) k = Some plugin"
  shows "loadPlugins_check fuel e ttc cb (k # ks) (st, nodeList) =
           (if dependenciesExists plugin = TB_true then
              loadPlugins_check fuel e ttc cb ks
                (set_graphId k (int (length nodeList)) st2, nodeList @ [Node_new k])
            else loadPlugins_check fuel e ttc cb ks (st2, nodeList))"
  using assms by (cases ttc; cases "rc_bool retCode") simp_all

lemma loadPlugins_check_keeps:
  assumes f1: "\<And>p v. f (p\<lparr>dependenciesExists := v\<rparr>) = f p"
      and f2: "\<And>p v. f (p\<lparr>graphId := v\<rparr>) = f p"
  shows "loadPlugins_check fuel e ttc cb ks (st, nodeList) = Inr (r, st', nodeList') \<Longrightarrow> keeps f st st'"
proof (induction ks arbitrary: st nodeList)
  case Nil
  then show ?case by (simp add: keeps_refl)
next
  case (Cons k ks)
  let ?st1 = "set_graphId k (- 1) st"
  from Cons.prems obtain retCode st2 where
    c: "checkDependencies fuel e cb k ?st1 = Inr (retCode, st2)"
    by (cases "checkDependencies fuel e cb k ?st1") auto
  have k2: "keeps f st st2"
    using keeps_trans[OF keeps_set_graphId[OF f2] checkDependencies_keeps[OF f1 c]] .
  show ?case
  proof (cases "\<not> ttc \<and> \<not> rc_bool retCode")
    case True
    with Cons.prems c have "st' = st2" by simp
    with k2 show ?thesis by simp
  next
    case False
    with Cons.prems c obtain plugin where p: "map_of (pluginsMap st2) k = Some plugin"
      by (cases "map_of (pluginsMap st2) k") auto
    note step = loadPlugins_check_step[OF c False p, of ks nodeList]
    show ?thesis
    proof (cases "dependenciesExists plugin = TB_true")
      case True
      with Cons.prems step
      have "loadPlugins_check fuel e ttc cb ks
              (set_graphId k (int (length nodeList)) st2, nodeList @ [Node_new k]) = Inr (r, st', nodeList')"
        by simp
      from Cons.IH[OF this] keeps_trans[OF k2 keeps_set_graphId[OF f2]] keeps_trans
      show ?thesis by blast
    next
      case nt: False
      with Cons.prems step
      have "loadPlugins_check fuel e ttc cb ks (st2, nodeList) = Inr (r, st', nodeList')"
        by simp
      from keeps_trans[OF k2 Cons.IH[OF this]] show ?thesis .
    qed
  qed
qed

lemma loadPlugins_check_inv:
  "distinct (done @ ks) \<Longrightarrow> map fst (pluginsMap st) = done @ ks \<Longrightarrow>
   graph_ids_ok st nodeList (set done) \<Longrightarrow>
   loadPlugins_check fuel e ttc cb ks (st, nodeList) = Inr (None, st', nodeList') \<Longrightarrow>
   graph_ids_ok st' nodeList' (set (done @ ks))"
proof (induction ks arbitrary: "done" st nodeList)
  case Nil
  then show ?case by simp
next
  case (Cons k ks)
  let ?st1 = "set_graphId k (- 1) st"
  have kin: "k \<in> set (map fst (pluginsMap st))" using Cons.prems(2) by simp
  have knd: "k \<notin> set done" using Cons.prems(1) by auto
  have g1: "field_of graphId ?st1 = (field_of graphId st)(k \<mapsto> - 1)"
    using field_set_graphId[OF kin] .
  from Cons.prems(4) obtain retCode st2 where
    c: "checkDependencies fuel e cb k ?st1 = Inr (retCode, st2)"
    by (cases "checkDependencies fuel e cb k ?st1") auto
  have kp: "keeps graphId ?st1 st2"
    by (rule checkDependencies_keeps[OF _ c]) simp
  have g2: "field_of graphId st2 = (field_of graphId st)(k \<mapsto> - 1)"
    using keeps_field[OF kp] g1 by simp
  have keys1: "map fst (pluginsMap ?st1) = done @ k # ks"
    using Cons.prems(2) by (simp add: set_graphId_def map_fst_map_entry)
  have keys2: "map fst (pluginsMap st2) = done @ k # ks"
    using keeps_keys[OF kp] keys1 by simp
  have ne: "\<not> (\<not> ttc \<and> \<not> rc_bool retCode)"
    using Cons.prems(4) c by (auto split: if_splits)
  with Cons.prems(4) c obtain plugin where p: "map_of (pluginsMap st2) k = Some plugin"
    by (cases "map_of (pluginsMap st2) k") auto
  have d': "distinct ((done @ [k]) @ ks)" using Cons.prems(1) by simp
  note step = loadPlugins_check_step[OF c ne p, of ks nodeList]
  show ?case
  proof (cases "dependenciesExists plugin = TB_true")
    case True
    let ?st3 = "set_graphId k (int (length nodeList)) st2"
    have kin2: "k \<in> set (map fst (pluginsMap st2))" using keys2 by simp
    have g3: "field_of graphId ?st3 = (field_of graphId st)(k \<mapsto> int (length nodeList))"
      using field_set_graphId[OF kin2, of "int (length nodeList)"] g2 by simp
    have keys3: "map fst (pluginsMap ?st3) = (done @ [k]) @ ks"
      using keys2 by (simp add: set_graphId_def map_fst_map_entry)
    have j3: "graph_ids_ok ?st3 (nodeList @ [Node_new k]) (set (done @ [k]))"
      using graph_ids_ok_push[OF Cons.prems(3) knd g3] by simp
    from True Cons.prems(4) step
    have "loadPlugins_check fuel e ttc cb ks (?st3, nodeList @ [Node_new k]) = Inr (None, st', nodeList')"
      by simp
    from Cons.IH[OF d' keys3 j3 this] show ?thesis by simp
  next
    case False
    have keys3: "map fst (pluginsMap st2) = (done @ [k]) @ ks"
      using keys2 by simp
    have j3: "graph_ids_ok st2 nodeList (set (done @ [k]))"
      using graph_ids_ok_skip[OF Cons.prems(3) knd g2] by simp
    from False Cons.prems(4) step
    have "loadPlugins_check fuel e ttc cb ks (st2, nodeList) = Inr (None, st', nodeList')"
      by simp
    from Cons.IH[OF d' keys3 j3 this] show ?thesis by simp
  qed
qed

lemma grows_refl: "grows nodes nodes"
  by (simp add: grows_def)

lemma grows_trans: "grows a b \<Longrightarrow> grows b c \<Longrightarrow> grows a c"
  unfolding grows_def by (auto; blast)

lemma grows_append_parents:
  "grows nodes (nodes[g := (nodes ! g)\<lparr>parentNodes := parentNodes (nodes ! g) @ ids\<rparr>])"
proof (cases "g < length nodes")
  case True
  then show ?thesis by (auto simp: grows_def nth_list_update)
next
  case False
  then show ?thesis by (simp add: grows_def list_update_beyond)
qed

lemma loadPlugins_parentIds_result:
  "loadPlugins_parentIds st ds = Inr ids \<Longrightarrow>
   (\<forall>d \<in> set ds. \<exists>dp. map_of (pluginsMap st) (dep_name d) = Some dp \<and> graphId dp \<in> set ids)"
proof (induction ds arbitrary: ids)
  case Nil
  then show ?case by simp
next
  case (Cons d ds)
  from Cons.prems obtain dp where dp: "map_of (pluginsMap st) (dep_name d) = Some dp"
    by (cases "map_of (pluginsMap st) (dep_name d)") auto
  with Cons.prems obtain ids' where r: "loadPlugins_parentIds st ds = Inr ids'"
    by (cases "loadPlugins_parentIds st ds") auto
  with Cons.prems dp have ids: "ids = graphId dp # ids'" by simp
  from Cons.IH[OF r] have "\<forall>d \<in> set ds. \<exists>dp. map_of (pluginsMap st) (dep_name d) = Some dp \<and>
      graphId dp \<in> set ids" using ids by auto
  with dp ids show ?case by auto
qed

lemma loadPlugins_fill_result:
  "loadPlugins_fill st m nodes = Inr nodes' \<Longrightarrow>
   grows nodes nodes' \<and>
   (\<forall>kp \<in> set m. \<forall>d \<in> set (dependencies (info (snd kp))). graphId (snd kp) \<noteq> - 1 \<longrightarrow>
      0 \<le> graphId (snd kp) \<and> nat (graphId (snd kp)) < length nodes \<and>
      (\<exists>dp. map_of (pluginsMap st) (dep_name d) = Some dp \<and>
            graphId dp \<in> set (parentNodes (nodes' ! nat (graphId (snd kp))))))"
proof (induction m arbitrary: nodes)
  case Nil
  then show ?case by (simp add: grows_refl)
next
  case (Cons kp m)
  obtain k plugin where kp: "kp = (k, plugin)" by force
  show ?case
  proof (cases "graphId plugin \<noteq> - 1")
    case False
    with Cons.prems kp have "loadPlugins_fill st m nodes = Inr nodes'" by simp
    from Cons.IH[OF this] False kp show ?thesis by simp
  next
    case True
    with Cons.prems kp obtain ids where
      ids: "loadPlugins_parentIds st (dependencies (info plugin)) = Inr ids"
      by (cases "loadPlugins_parentIds st (dependencies (info plugin))") auto
    let ?g = "nat (graphId plugin)"
    let ?nodes1 = "nodes[?g := (nodes ! ?g)\<lparr>parentNodes := parentNodes (nodes ! ?g) @ ids\<rparr>]"
    have ok: "\<not> (ids \<noteq> [] \<and> (graphId plugin < 0 \<or> int (length nodes) \<le> graphId plugin))"
      using Cons.prems kp True ids by (auto split: if_splits)
    with Cons.prems kp True ids have r: "loadPlugins_fill st m ?nodes1 = Inr nodes'"
      by (auto split: if_splits)
    note ih = Cons.IH[OF r]
    have g1: "grows nodes ?nodes1" by (rule grows_append_parents)
    have g2: "grows ?nodes1 nodes'" using ih by simp
    have g: "grows nodes nodes'" using grows_trans[OF g1 g2] .
    have here: "\<forall>d \<in> set (dependencies (info plugin)).
      0 \<le> graphId plugin \<and> ?g < length nodes \<and>
      (\<exists>dp. map_of (pluginsMap st) (dep_name d) = Some dp \<and>
            graphId dp \<in> set (parentNodes (nodes' ! ?g)))"
    proof
      fix d assume d: "d \<in> set (dependencies (info plugin))"
      from loadPlugins_parentIds_result[OF ids] d obtain dp where
        dp: "map_of (pluginsMap st) (dep_name d) = Some dp" "graphId dp \<in> set ids" by blast
      then have "ids \<noteq> []" by auto
      with ok have rng: "0 \<le> graphId plugin" "?g < length nodes" by auto
      then have "graphId dp \<in> set (parentNodes (?nodes1 ! ?g))"
        using dp(2) by simp
      moreover have "?g < length ?nodes1" using rng by simp
      with g2 have "set (parentNodes (?nodes1 ! ?g)) \<subseteq> set (parentNodes (nodes' ! ?g))"
        unfolding grows_def by blast
      ultimately have "graphId dp \<in> set (parentNodes (nodes' ! ?g))" by blast
      with dp(1) rng show "0 \<le> graphId plugin \<and> ?g < length nodes \<and>
        (\<exists>dp. map_of (pluginsMap st) (dep_name d) = Some dp \<and>
            graphId dp \<in> set (parentNodes (nodes' ! ?g)))" by blast
    qed
    have rest: "\<forall>kp \<in> set m. \<forall>d \<in> set (dependencies (info (snd kp))). graphId (snd kp) \<noteq> - 1 \<longrightarrow>
      0 \<le> graphId (snd kp) \<and> nat (graphId (snd kp)) < length nodes \<and>
      (\<exists>dp. map_of (pluginsMap st) (dep_name d) = Some dp \<and>
            graphId dp \<in> set (parentNodes (nodes' ! nat (graphId (snd kp)))))"
      using ih by simp
    from g here rest kp show ?thesis by simp
  qed
qed

lemma precedes_map: "precedes a b xs \<Longrightarrow> precedes (f a) (f b) (map f xs)"
proof -
  assume "precedes a b xs"
  then obtain k1 k2 where k: "k1 < k2" "k2 < length xs" "xs ! k1 = a" "xs ! k2 = b"
    unfolding precedes_def by auto
  then have "k1 < length xs" by simp
  with k show ?thesis
    unfolding precedes_def by (intro exI[of _ k1] exI[of _ k2]) simp
qed

text \<open>
  The three steps of \<open>loadPlugins\<close> that compute the load order: when the sort succeeds,
  the order has no repetition, every name in it is a key of the map, and every
  dependency of the record under that name stands before it.
\<close>

lemma loadPlugins_sorted:
  assumes dk: "distinct (map fst (pluginsMap st))"
      and chk: "loadPlugins_check fuel e ttc cb (map fst (pluginsMap st)) (st, []) = Inr (None, st1, nodeList)"
      and fill: "loadPlugins_fill st1 (pluginsMap st1) nodeList = Inr nodeList'"
      and srt: "topologicalSort fuel nodeList' = Inr (False, order)"
  shows "distinct order \<and>
         (\<forall>P \<in> set order. \<exists>p. map_of (pluginsMap st1) P = Some p \<and>
            (\<forall>d \<in> set (dependencies (info p)). precedes (dep_name d) P order))"
proof -
  let ?keys = "map fst (pluginsMap st)"
  let ?n = "length nodeList"
  have j0: "graph_ids_ok st [] (set [])" by (simp add: graph_ids_ok_def)
  have dk': "distinct ([] @ ?keys)" using dk by simp
  have k0: "map fst (pluginsMap st) = [] @ ?keys" by simp
  have J: "graph_ids_ok st1 nodeList (set ?keys)"
    using loadPlugins_check_inv[OF dk' k0 j0 chk] by simp
  have J1: "\<And>n. n \<in> set nodeList \<Longrightarrow> flag n = UNMARKED"
    and J2: "\<And>k. k \<in> set ?keys \<Longrightarrow> field_of graphId st1 k = Some (- 1) \<or>
                (\<exists>i < ?n. field_of graphId st1 k = Some (int i) \<and> node_name (nodeList ! i) = k)"
    and J3: "\<And>i. i < ?n \<Longrightarrow> node_name (nodeList ! i) \<in> set ?keys \<and>
                            field_of graphId st1 (node_name (nodeList ! i)) = Some (int i)"
    using J unfolding graph_ids_ok_def by blast+
  have keys1: "map fst (pluginsMap st1) = ?keys"
    using keeps_keys[OF loadPlugins_check_keeps[OF _ _ chk, of "\<lambda>p. ()"]] by simp
  note F = loadPlugins_fill_result[OF fill]
  have g: "grows nodeList nodeList'" using F by (rule conjunct1)
  have F2: "\<forall>kp \<in> set (pluginsMap st1). \<forall>d \<in> set (dependencies (info (snd kp))).
      graphId (snd kp) \<noteq> - 1 \<longrightarrow>
      0 \<le> graphId (snd kp) \<and> nat (graphId (snd kp)) < length nodeList \<and>
      (\<exists>dp. map_of (pluginsMap st1) (dep_name d) = Some dp \<and>
            graphId dp \<in> set (parentNodes (nodeList' ! nat (graphId (snd kp)))))"
    using F by (rule conjunct2)
  have len: "length nodeList' = ?n" using g unfolding grows_def by (rule conjunct1)
  have gg: "\<forall>i < ?n. node_name (nodeList' ! i) = node_name (nodeList ! i) \<and>
        flag (nodeList' ! i) = flag (nodeList ! i) \<and>
        set (parentNodes (nodeList ! i)) \<subseteq> set (parentNodes (nodeList' ! i))"
    using g unfolding grows_def by (rule conjunct2)
  have nm: "\<And>i. i < ?n \<Longrightarrow> node_name (nodeList' ! i) = node_name (nodeList ! i)"
    using gg by simp
  have fl: "\<And>i. i < ?n \<Longrightarrow> flag (nodeList' ! i) = flag (nodeList ! i)"
    using gg by simp
  have unm: "\<forall>n \<in> set nodeList'. flag n = UNMARKED"
  proof
    fix n assume "n \<in> set nodeList'"
    then obtain i where i: "i < length nodeList'" "nodeList' ! i = n"
      by (auto simp: in_set_conv_nth)
    with len have "i < ?n" by simp
    from fl[OF this] J1[of "nodeList ! i"] this i show "flag n = UNMARKED" by simp
  qed
  from topologicalSort_sorted[OF unm srt] obtain idxs where
    all: "order = map (\<lambda>i. node_name (nodeList' ! i)) idxs \<and> distinct idxs \<and>
           set idxs = {..<length nodeList'} \<and>
           (\<forall>i < length nodeList'. \<forall>p \<in> set (parentNodes (nodeList' ! i)).
              0 \<le> p \<and> nat p < length nodeList' \<and> precedes (nat p) i idxs)" ..
  from all have o: "order = map (\<lambda>i. node_name (nodeList' ! i)) idxs" by (elim conjE)
  from all have di: "distinct idxs" by (elim conjE)
  from all have si: "set idxs = {..<length nodeList'}" by (elim conjE)
  from all have pre: "\<forall>i < length nodeList'. \<forall>p \<in> set (parentNodes (nodeList' ! i)).
                0 \<le> p \<and> nat p < length nodeList' \<and> precedes (nat p) i idxs"
    by (elim conjE)
  have in_n: "\<And>i. i \<in> set idxs \<Longrightarrow> i < ?n" using si len by simp
  have inj: "inj_on (\<lambda>i. node_name (nodeList' ! i)) (set idxs)"
  proof (rule inj_onI)
    fix i j assume i: "i \<in> set idxs" and j: "j \<in> set idxs"
      and eq: "node_name (nodeList' ! i) = node_name (nodeList' ! j)"
    have e: "node_name (nodeList ! i) = node_name (nodeList ! j)"
      using eq unfolding nm[OF in_n[OF i]] nm[OF in_n[OF j]] .
    have a: "field_of graphId st1 (node_name (nodeList ! i)) = Some (int i)"
      using J3[OF in_n[OF i]] by (rule conjunct2)
    have b: "field_of graphId st1 (node_name (nodeList ! j)) = Some (int j)"
      using J3[OF in_n[OF j]] by (rule conjunct2)
    from a have "field_of graphId st1 (node_name (nodeList ! j)) = Some (int i)"
      unfolding e .
    with b have "int i = int j" by simp
    then show "i = j" by simp
  qed
  have d: "distinct order"
    unfolding o using di inj by (simp add: distinct_map)
  have main: "\<forall>P \<in> set order. \<exists>p. map_of (pluginsMap st1) P = Some p \<and>
            (\<forall>d \<in> set (dependencies (info p)). precedes (dep_name d) P order)"
  proof
    fix P assume "P \<in> set order"
    then obtain i where i: "i \<in> set idxs" and P: "P = node_name (nodeList' ! i)"
      unfolding o by auto
    have iN: "i < ?n" using in_n[OF i] .
    have P': "P = node_name (nodeList ! i)" using P unfolding nm[OF iN] .
    have "field_of graphId st1 (node_name (nodeList ! i)) = Some (int i)"
      using J3[OF iN] by (rule conjunct2)
    then have gP: "field_of graphId st1 P = Some (int i)" unfolding P'[symmetric] .
    then obtain p where p: "map_of (pluginsMap st1) P = Some p" and gp: "graphId p = int i"
      by (auto simp: field_of_def)
    have mem: "(P, p) \<in> set (pluginsMap st1)" using map_of_SomeD[OF p] .
    have "\<forall>d \<in> set (dependencies (info p)). precedes (dep_name d) P order"
    proof
      fix d assume dd: "d \<in> set (dependencies (info p))"
      have ne: "graphId (snd (P, p)) \<noteq> - 1" using gp by simp
      have dd': "d \<in> set (dependencies (info (snd (P, p))))" using dd by simp
      from F2[rule_format, OF mem dd' ne] obtain dp where
        dp: "map_of (pluginsMap st1) (dep_name d) = Some dp"
        and par: "graphId dp \<in> set (parentNodes (nodeList' ! nat (graphId (snd (P, p)))))"
        by (elim conjE exE)
      from par gp have par': "graphId dp \<in> set (parentNodes (nodeList' ! i))" by simp
      from pre iN len par' have r: "0 \<le> graphId dp" "nat (graphId dp) < ?n"
        "precedes (nat (graphId dp)) i idxs" by auto
      have dkey: "dep_name d \<in> set ?keys"
        using map_of_SomeD[OF dp] keys1 by (metis fst_conv image_eqI set_map)
      have fd: "field_of graphId st1 (dep_name d) = Some (graphId dp)"
        using dp by (simp add: field_of_def)
      have "field_of graphId st1 (dep_name d) \<noteq> Some (- 1)"
        using fd r(1) by simp
      with J2[OF dkey] obtain j where
        j0: "j < ?n \<and> field_of graphId st1 (dep_name d) = Some (int j) \<and>
             node_name (nodeList ! j) = dep_name d"
        by blast
      then have j: "j < ?n" "node_name (nodeList ! j) = dep_name d" by simp_all
      from j0 fd have "graphId dp = int j" by simp
      then have nj: "nat (graphId dp) = j" by simp
      from precedes_map[OF r(3), of "\<lambda>i. node_name (nodeList' ! i)"]
      have "precedes (node_name (nodeList' ! j)) (node_name (nodeList' ! i)) order"
        unfolding o nj .
      then show "precedes (dep_name d) P order"
        unfolding nm[OF j(1)] j(2) P[symmetric] .
    qed
    with p show "\<exists>p. map_of (pluginsMap st1) P = Some p \<and>
            (\<forall>d \<in> set (dependencies (info p)). precedes (dep_name d) P order)" by blast
  qed
  from d main show ?thesis by (rule conjI)
qed

lemma loadPlugins_check_early:
  "loadPlugins_check fuel e ttc cb ks (st, nodeList) = Inr (Some rc, st', nodeList') \<Longrightarrow> rc \<noteq> SUCCESS"
proof (induction ks arbitrary: st nodeList)
  case Nil
  then show ?case by simp
next
  case (Cons k ks)
  from Cons.prems obtain retCode st2 where
    c: "checkDependencies fuel e cb k (set_graphId k (- 1) st) = Inr (retCode, st2)"
    by (cases "checkDependencies fuel e cb k (set_graphId k (- 1) st)") auto
  show ?case
  proof (cases "\<not> ttc \<and> \<not> rc_bool retCode")
    case True
    with Cons.prems c have "rc = retCode" by simp
    with True show ?thesis by (simp add: rc_bool_def)
  next
    case False
    with Cons.prems c obtain plugin where p: "map_of (pluginsMap st2) k = Some plugin"
      by (cases "map_of (pluginsMap st2) k") auto
    note step = loadPlugins_check_step[OF c False p, of ks nodeList]
    show ?thesis
    proof (cases "dependenciesExists plugin = TB_true")
      case True
      with Cons.prems step Cons.IH show ?thesis by simp
    next
      case nt: False
      with Cons.prems step Cons.IH show ?thesis by simp
    qed
  qed
qed

text \<open>What one load does to the state.\<close>

lemma PlugMgrPrivate_loadPlugin_result:
  assumes "PlugMgrPrivate_loadPlugin e key st = Inr st'"
  shows "\<exists>plugin lp ptrs. map_of (pluginsMap st) key = Some plugin \<and> lib plugin = Some lp \<and>
           st' = st\<lparr>pluginsMap :=
                      AList.map_entry key (\<lambda>p. p\<lparr>creator := Some lp, iplugin := Some (IPlugin lp)\<rparr>)
                        (pluginsMap st),
                    trace := trace st @ [Created (IPlugin lp) ptrs (isMainPlugin plugin),
                                         Loaded (IPlugin lp)]\<rparr>"
proof -
  from assms obtain plugin where p: "map_of (pluginsMap st) key = Some plugin"
    unfolding PlugMgrPrivate_loadPlugin_def by (cases "map_of (pluginsMap st) key") auto
  from assms p obtain lp where lp: "lib plugin = Some lp"
    unfolding PlugMgrPrivate_loadPlugin_def by (cases "lib plugin") auto
  from assms p lp obtain l where l: "dlopen e lp = Some l"
    unfolding PlugMgrPrivate_loadPlugin_def by (cases "dlopen e lp") auto
  from assms p lp l have s: "sym_jp_createPlugin l"
    unfolding PlugMgrPrivate_loadPlugin_def by (cases "sym_jp_createPlugin l") auto
  from assms p lp l s obtain ptrs where d: "depPlugins st (dependencies (info plugin)) = Inr ptrs"
    unfolding PlugMgrPrivate_loadPlugin_def
    by (cases "depPlugins st (dependencies (info plugin))") auto
  from assms p lp l s d
  have "st' = st\<lparr>pluginsMap :=
                      AList.map_entry key (\<lambda>p. p\<lparr>creator := Some lp, iplugin := Some (IPlugin lp)\<rparr>)
                        (pluginsMap st),
                    trace := trace st @ [Created (IPlugin lp) ptrs (isMainPlugin plugin),
                                         Loaded (IPlugin lp)]\<rparr>"
    unfolding PlugMgrPrivate_loadPlugin_def by simp
  with p lp show ?thesis by blast
qed

lemma PlugMgrPrivate_loadPlugin_facts:
  assumes "PlugMgrPrivate_loadPlugin e key st = Inr st'"
  shows "live st' key"
    and "\<And>n. live st n \<Longrightarrow> live st' n"
    and "\<And>f. (\<And>p a b. f (p\<lparr>creator := a, iplugin := b\<rparr>) = f p) \<Longrightarrow>
           map (\<lambda>kp. (fst kp, f (snd kp))) (pluginsMap st') =
           map (\<lambda>kp. (fst kp, f (snd kp))) (pluginsMap st)"
    and "loadOrderList st' = loadOrderList st" and "locations st' = locations st"
    and "mainPluginName st' = mainPluginName st"
    and "\<exists>plugin lp t. map_of (pluginsMap st) key = Some plugin \<and> lib plugin = Some lp \<and>
           trace st' = trace st @ t \<and> loaded_calls t = [IPlugin lp]"
proof -
  from PlugMgrPrivate_loadPlugin_result[OF assms] obtain plugin lp ptrs where
    p: "map_of (pluginsMap st) key = Some plugin" and lp: "lib plugin = Some lp"
    and st': "st' = st\<lparr>pluginsMap :=
                      AList.map_entry key (\<lambda>p. p\<lparr>creator := Some lp, iplugin := Some (IPlugin lp)\<rparr>)
                        (pluginsMap st),
                    trace := trace st @ [Created (IPlugin lp) ptrs (isMainPlugin plugin),
                                         Loaded (IPlugin lp)]\<rparr>"
    by blast
  have m: "\<And>n. map_of (pluginsMap st') n =
             (if n = key then Some (plugin\<lparr>creator := Some lp, iplugin := Some (IPlugin lp)\<rparr>)
              else map_of (pluginsMap st) n)"
    using p by (simp add: st' map_of_map_entry)
  show "live st' key"
    unfolding live_def using m[of key] lp by simp
  show "\<And>n. live st n \<Longrightarrow> live st' n"
  proof -
    fix n assume l: "live st n"
    show "live st' n"
    proof (cases "n = key")
      case True
      then show ?thesis unfolding live_def using m[of key] lp by simp
    next
      case False
      then show ?thesis using l unfolding live_def using m[of n] by simp
    qed
  qed
  show "\<And>f. (\<And>p a b. f (p\<lparr>creator := a, iplugin := b\<rparr>) = f p) \<Longrightarrow>
           map (\<lambda>kp. (fst kp, f (snd kp))) (pluginsMap st') =
           map (\<lambda>kp. (fst kp, f (snd kp))) (pluginsMap st)"
    by (simp add: st' map_entry_view)
  show "loadOrderList st' = loadOrderList st" "locations st' = locations st"
    "mainPluginName st' = mainPluginName st"
    by (simp_all add: st')
  have "trace st' = trace st @ [Created (IPlugin lp) ptrs (isMainPlugin plugin), Loaded (IPlugin lp)]"
    "loaded_calls [Created (IPlugin lp) ptrs (isMainPlugin plugin), Loaded (IPlugin lp)] = [IPlugin lp]"
    by (simp_all add: st' loaded_calls_def)
  with p lp show "\<exists>plugin lp t. map_of (pluginsMap st) key = Some plugin \<and> lib plugin = Some lp \<and>
           trace st' = trace st @ t \<and> loaded_calls t = [IPlugin lp]" by blast
qed

lemma loaded_calls_append: "loaded_calls (a @ b) = loaded_calls a @ loaded_calls b"
  by (simp add: loaded_calls_def)

lemma view_field:
  "map (\<lambda>kp. (fst kp, f (snd kp))) (pluginsMap s') = map (\<lambda>kp. (fst kp, f (snd kp))) (pluginsMap s) \<Longrightarrow>
   field_of f s' = field_of f s"
proof
  fix k
  assume "map (\<lambda>kp. (fst kp, f (snd kp))) (pluginsMap s') = map (\<lambda>kp. (fst kp, f (snd kp))) (pluginsMap s)"
  then have "map_of (map (\<lambda>kp. (fst kp, f (snd kp))) (pluginsMap s')) k =
             map_of (map (\<lambda>kp. (fst kp, f (snd kp))) (pluginsMap s)) k" by simp
  then show "field_of f s' k = field_of f s k"
    by (simp add: map_of_view field_of_def)
qed

lemma loadPluginsInOrder_step:
  assumes "loadPluginsInOrder e (n # ns) st = Inr st'"
  obtains st1 where "PlugMgrPrivate_loadPlugin e n st = Inr st1" "loadPluginsInOrder e ns st1 = Inr st'"
proof -
  from assms have h: "hasPlugin st n" by (auto split: if_splits)
  with assms obtain st1 where 1: "PlugMgrPrivate_loadPlugin e n st = Inr st1"
    by (cases "PlugMgrPrivate_loadPlugin e n st") auto
  with assms h have "loadPluginsInOrder e ns st1 = Inr st'" by simp
  with 1 that show ?thesis by blast
qed

lemma loadPluginsInOrder_frame:
  assumes f: "\<And>p a b. f (p\<lparr>creator := a, iplugin := b\<rparr>) = f p"
  shows "loadPluginsInOrder e ns st = Inr st' \<Longrightarrow>
         map (\<lambda>kp. (fst kp, f (snd kp))) (pluginsMap st') =
         map (\<lambda>kp. (fst kp, f (snd kp))) (pluginsMap st) \<and>
         loadOrderList st' = loadOrderList st \<and> locations st' = locations st \<and>
         mainPluginName st' = mainPluginName st"
proof (induction ns arbitrary: st)
  case Nil
  then show ?case by simp
next
  case (Cons n ns)
  show ?case
  proof (rule loadPluginsInOrder_step[OF Cons.prems])
    fix st1
    assume 1: "PlugMgrPrivate_loadPlugin e n st = Inr st1" and 2: "loadPluginsInOrder e ns st1 = Inr st'"
    note a = PlugMgrPrivate_loadPlugin_facts(3-6)[OF 1]
    from Cons.IH[OF 2] a(1)[of f, OF f] a(2-4) show ?thesis by simp
  qed
qed

lemma loadPluginsInOrder_live_kept:
  "loadPluginsInOrder e ns st = Inr st' \<Longrightarrow> live st n \<Longrightarrow> live st' n"
proof (induction ns arbitrary: st)
  case Nil
  then show ?case by simp
next
  case (Cons k ns)
  show ?case
  proof (rule loadPluginsInOrder_step[OF Cons.prems(1)])
    fix st1
    assume 1: "PlugMgrPrivate_loadPlugin e k st = Inr st1" and 2: "loadPluginsInOrder e ns st1 = Inr st'"
    from PlugMgrPrivate_loadPlugin_facts(2)[OF 1 Cons.prems(2)] have "live st1 n" .
    from Cons.IH[OF 2 this] show ?thesis .
  qed
qed

lemma loadPluginsInOrder_live:
  "loadPluginsInOrder e ns st = Inr st' \<Longrightarrow> \<forall>n \<in> set ns. live st' n"
proof (induction ns arbitrary: st)
  case Nil
  then show ?case by simp
next
  case (Cons k ns)
  show ?case
  proof (rule loadPluginsInOrder_step[OF Cons.prems(1)])
    fix st1
    assume 1: "PlugMgrPrivate_loadPlugin e k st = Inr st1" and 2: "loadPluginsInOrder e ns st1 = Inr st'"
    from PlugMgrPrivate_loadPlugin_facts(1)[OF 1] have "live st1 k" .
    from loadPluginsInOrder_live_kept[OF 2 this] Cons.IH[OF 2] show ?thesis by simp
  qed
qed

lemma loadPluginsInOrder_trace:
  "loadPluginsInOrder e ns st = Inr st' \<Longrightarrow>
   \<exists>t. trace st' = trace st @ t \<and>
       loaded_calls t = [IPlugin lp. n \<leftarrow> ns, Some (Some lp) \<leftarrow> [field_of lib st n]]"
proof (induction ns arbitrary: st)
  case Nil
  then show ?case by (simp add: loaded_calls_def)
next
  case (Cons k ns)
  show ?case
  proof (rule loadPluginsInOrder_step[OF Cons.prems(1)])
    fix st1
    assume 1: "PlugMgrPrivate_loadPlugin e k st = Inr st1" and 2: "loadPluginsInOrder e ns st1 = Inr st'"
    from PlugMgrPrivate_loadPlugin_facts(7)[OF 1] obtain plugin lp t1 where
      p: "map_of (pluginsMap st) k = Some plugin" "lib plugin = Some lp"
      and t1: "trace st1 = trace st @ t1" "loaded_calls t1 = [IPlugin lp]" by blast
    have fk: "field_of lib st k = Some (Some lp)" using p by (simp add: field_of_def)
    have same: "field_of lib st1 = field_of lib st"
      by (rule view_field, rule PlugMgrPrivate_loadPlugin_facts(3)[OF 1]) simp
    from Cons.IH[OF 2] obtain t2 where
      t2: "trace st' = trace st1 @ t2"
          "loaded_calls t2 = [IPlugin lp. n \<leftarrow> ns, Some (Some lp) \<leftarrow> [field_of lib st1 n]]" by blast
    have "trace st' = trace st @ (t1 @ t2)" using t1 t2 by simp
    moreover have "loaded_calls (t1 @ t2) =
        [IPlugin lp. n \<leftarrow> k # ns, Some (Some lp) \<leftarrow> [field_of lib st n]]"
      using t1(2) t2(2) fk by (simp add: loaded_calls_append same)
    ultimately show ?thesis by blast
  qed
qed

text \<open>The parts of a call of \<open>loadPlugins\<close> that returns \<open>SUCCESS\<close>.\<close>

lemma loadPlugins_success:
  assumes "loadPlugins fuel e ttc cb st = Inr (SUCCESS, st')"
  obtains st1 nodeList nodeList' order st3 where
    "loadPlugins_check fuel e ttc cb (map fst (pluginsMap st)) (st, []) = Inr (None, st1, nodeList)"
    "loadPlugins_fill st1 (pluginsMap st1) nodeList = Inr nodeList'"
    "topologicalSort fuel nodeList' = Inr (False, order)"
    "loadPluginsInOrder e order (st1\<lparr>loadOrderList := order\<rparr>) = Inr st3"
    "st' = st3 \<or> (\<exists>obj. st' = st3\<lparr>trace := trace st3 @ [MainPluginExec obj]\<rparr>)"
proof -
  from assms obtain r st1 nodeList where
    c: "loadPlugins_check fuel e ttc cb (map fst (pluginsMap st)) (st, []) = Inr (r, st1, nodeList)"
    unfolding loadPlugins_def
    by (cases "loadPlugins_check fuel e ttc cb (map fst (pluginsMap st)) (st, [])") auto
  have r: "r = None"
  proof (cases r)
    case None
    then show ?thesis .
  next
    case (Some rc)
    with assms c have "rc = SUCCESS" unfolding loadPlugins_def by simp
    with loadPlugins_check_early[of fuel e ttc cb _ st "[]" rc st1 nodeList] c Some
    show ?thesis by simp
  qed
  from assms c r obtain nodeList' where
    f: "loadPlugins_fill st1 (pluginsMap st1) nodeList = Inr nodeList'"
    unfolding loadPlugins_def
    by (cases "loadPlugins_fill st1 (pluginsMap st1) nodeList") auto
  from assms c r f obtain err order where
    s: "topologicalSort fuel nodeList' = Inr (err, order)"
    unfolding loadPlugins_def
    by (cases "topologicalSort fuel nodeList'") auto
  have err: "\<not> err"
    using assms c r f s unfolding loadPlugins_def by (auto simp: Let_def split: if_splits)
  let ?st2 = "st1\<lparr>loadOrderList := order\<rparr>"
  from assms c r f s err obtain st3 where
    l: "loadPluginsInOrder e order ?st2 = Inr st3"
    unfolding loadPlugins_def
    by (cases "loadPluginsInOrder e order ?st2") (auto simp: Let_def)
  have last: "st' = st3 \<or> (\<exists>obj. st' = st3\<lparr>trace := trace st3 @ [MainPluginExec obj]\<rparr>)"
    using assms c r f s err l unfolding loadPlugins_def
    by (auto simp: Let_def split: if_splits option.splits)
  have c': "loadPlugins_check fuel e ttc cb (map fst (pluginsMap st)) (st, []) = Inr (None, st1, nodeList)"
    using c r by simp
  have s': "topologicalSort fuel nodeList' = Inr (False, order)"
    using s err by simp
  show ?thesis by (rule that[OF c' f s' l last])
qed

text \<open>The load order of a call of \<open>loadPlugins\<close> that returns \<open>SUCCESS\<close>.\<close>

lemma loadPlugins_success_order:
  assumes "distinct (map fst (pluginsMap st))"
      and "loadPlugins fuel e tryToContinue cb st = Inr (SUCCESS, st')"
  shows "distinct (loadOrderList st') \<and>
         (\<forall>P \<in> set (loadOrderList st'). \<exists>p. map_of (pluginsMap st') P = Some p \<and>
            (\<forall>d \<in> set (dependencies (info p)). precedes (dep_name d) P (loadOrderList st')))"
proof (rule loadPlugins_success[OF assms(2)])
  fix st1 nodeList nodeList' order st3
  assume c: "loadPlugins_check fuel e tryToContinue cb (map fst (pluginsMap st)) (st, []) =
               Inr (None, st1, nodeList)"
    and f: "loadPlugins_fill st1 (pluginsMap st1) nodeList = Inr nodeList'"
    and s: "topologicalSort fuel nodeList' = Inr (False, order)"
    and l: "loadPluginsInOrder e order (st1\<lparr>loadOrderList := order\<rparr>) = Inr st3"
    and e: "st' = st3 \<or> (\<exists>obj. st' = st3\<lparr>trace := trace st3 @ [MainPluginExec obj]\<rparr>)"
  have d: "distinct order"
    using loadPlugins_sorted[OF assms(1) c f s] by (rule conjunct1)
  have m: "\<forall>P \<in> set order. \<exists>p. map_of (pluginsMap st1) P = Some p \<and>
            (\<forall>d \<in> set (dependencies (info p)). precedes (dep_name d) P order)"
    using loadPlugins_sorted[OF assms(1) c f s] by (rule conjunct2)
  have fr: "map (\<lambda>kp. (fst kp, info (snd kp))) (pluginsMap st3) =
            map (\<lambda>kp. (fst kp, info (snd kp))) (pluginsMap (st1\<lparr>loadOrderList := order\<rparr>))"
    and lo: "loadOrderList st3 = loadOrderList (st1\<lparr>loadOrderList := order\<rparr>)"
    using loadPluginsInOrder_frame[OF _ l, of info] by simp_all
  have same: "pluginsMap st' = pluginsMap st3 \<and> loadOrderList st' = loadOrderList st3"
    using e
  proof
    assume "st' = st3"
    then show ?thesis by simp
  next
    assume "\<exists>obj. st' = st3\<lparr>trace := trace st3 @ [MainPluginExec obj]\<rparr>"
    then obtain obj where "st' = st3\<lparr>trace := trace st3 @ [MainPluginExec obj]\<rparr>" ..
    then show ?thesis by simp
  qed
  then have pm: "pluginsMap st' = pluginsMap st3" and lo': "loadOrderList st' = order"
    using lo by simp_all
  have fi3: "field_of info st3 = field_of info (st1\<lparr>loadOrderList := order\<rparr>)"
    using view_field[OF fr] .
  have fi: "\<And>k. field_of info st' k = field_of info st1 k"
  proof -
    fix k
    from fun_cong[OF fi3, of k] show "field_of info st' k = field_of info st1 k"
      by (simp add: field_of_def pm)
  qed
  have "\<forall>P \<in> set order. \<exists>p. map_of (pluginsMap st') P = Some p \<and>
            (\<forall>d \<in> set (dependencies (info p)). precedes (dep_name d) P order)"
  proof
    fix P assume "P \<in> set order"
    with m have "\<exists>p. map_of (pluginsMap st1) P = Some p \<and>
            (\<forall>d \<in> set (dependencies (info p)). precedes (dep_name d) P order)" by (rule bspec)
    then obtain p where p: "map_of (pluginsMap st1) P = Some p"
      and dp: "\<forall>d \<in> set (dependencies (info p)). precedes (dep_name d) P order"
      by (elim exE conjE)
    from fi[of P] p have "map_option info (map_of (pluginsMap st') P) = Some (info p)"
      by (simp add: field_of_def)
    then obtain p' where p': "map_of (pluginsMap st') P = Some p'" "info p' = info p"
      by (cases "map_of (pluginsMap st') P") simp_all
    from dp have "\<forall>d \<in> set (dependencies (info p')). precedes (dep_name d) P order"
      unfolding p'(2) .
    with p'(1) show "\<exists>p. map_of (pluginsMap st') P = Some p \<and>
            (\<forall>d \<in> set (dependencies (info p)). precedes (dep_name d) P order)"
      by (intro exI[of _ p'] conjI)
  qed
  with d show ?thesis unfolding lo' by (rule conjI)
qed

text \<open>Loading the plugins of the load order keeps the load order and what it respects.\<close>

lemma loadPluginsInOrder_respects:
  assumes r: "respects_dependencies st"
      and l: "loadPluginsInOrder e ns st = Inr st3"
  shows "loadOrderList st3 = loadOrderList st \<and> respects_dependencies st3"
proof -
  have fr: "map (\<lambda>kp. (fst kp, info (snd kp))) (pluginsMap st3) =
            map (\<lambda>kp. (fst kp, info (snd kp))) (pluginsMap st)"
    and lo: "loadOrderList st3 = loadOrderList st"
    using loadPluginsInOrder_frame[OF _ l, of info] by simp_all
  have fi: "field_of info st3 = field_of info st"
    using view_field[OF fr] .
  from r have d: "distinct (loadOrderList st)"
    and m: "\<forall>P \<in> set (loadOrderList st). \<exists>p. map_of (pluginsMap st) P = Some p \<and>
            (\<forall>d \<in> set (dependencies (info p)). precedes (dep_name d) P (loadOrderList st))"
    unfolding respects_dependencies_def by (rule conjunct1, rule conjunct2)
  have "\<forall>P \<in> set (loadOrderList st). \<exists>p. map_of (pluginsMap st3) P = Some p \<and>
            (\<forall>d \<in> set (dependencies (info p)). precedes (dep_name d) P (loadOrderList st))"
  proof
    fix P assume "P \<in> set (loadOrderList st)"
    with m have "\<exists>p. map_of (pluginsMap st) P = Some p \<and>
            (\<forall>d \<in> set (dependencies (info p)). precedes (dep_name d) P (loadOrderList st))"
      by (rule bspec)
    then obtain p where p: "map_of (pluginsMap st) P = Some p"
      and dp: "\<forall>d \<in> set (dependencies (info p)). precedes (dep_name d) P (loadOrderList st)"
      by (elim exE conjE)
    from fun_cong[OF fi, of P] p have "map_option info (map_of (pluginsMap st3) P) = Some (info p)"
      by (simp add: field_of_def)
    then obtain p' where p': "map_of (pluginsMap st3) P = Some p'" "info p' = info p"
      by (cases "map_of (pluginsMap st3) P") simp_all
    from dp have "\<forall>d \<in> set (dependencies (info p')). precedes (dep_name d) P (loadOrderList st)"
      unfolding p'(2) .
    with p'(1) show "\<exists>p. map_of (pluginsMap st3) P = Some p \<and>
            (\<forall>d \<in> set (dependencies (info p)). precedes (dep_name d) P (loadOrderList st))"
      by (intro exI[of _ p'] conjI)
  qed
  with d have "respects_dependencies st3"
    unfolding respects_dependencies_def lo by (rule conjI)
  with lo show ?thesis by (rule conjI)
qed

text \<open>
  C1. The keys of the map are distinct, as in every \<^verbatim>\<open>std::unordered_map\<close>. Whenever a
  call of \<open>loadPlugins\<close> reaches the topological sort and the sort succeeds with
  \<open>order\<close>, the state in which \<open>order\<close> is stored respects the dependencies: the load
  order has no repetition, and every declared dependency of every plugin of the load
  order stands in the load order at a smaller index. So does the state after
  \<open>loadPluginsInOrder\<close>, with the same load order, and so does the state of every
  call that returns \<open>SUCCESS\<close>.
\<close>

theorem loadPlugins_order_respects_dependencies:
  assumes "distinct (map fst (pluginsMap st))"
  shows "(\<forall>st1 nodeList nodeList' order.
            loadPlugins_check fuel e tryToContinue cb (map fst (pluginsMap st)) (st, []) =
              Inr (None, st1, nodeList) \<and>
            loadPlugins_fill st1 (pluginsMap st1) nodeList = Inr nodeList' \<and>
            topologicalSort fuel nodeList' = Inr (False, order) \<longrightarrow>
            respects_dependencies (st1\<lparr>loadOrderList := order\<rparr>) \<and>
            (\<forall>st3. loadPluginsInOrder e order (st1\<lparr>loadOrderList := order\<rparr>) = Inr st3 \<longrightarrow>
                   loadOrderList st3 = order \<and> respects_dependencies st3)) \<and>
         (\<forall>st'. loadPlugins fuel e tryToContinue cb st = Inr (SUCCESS, st') \<longrightarrow>
                respects_dependencies st')"
proof (intro conjI allI impI)
  fix st1 nodeList nodeList' order
  assume a: "loadPlugins_check fuel e tryToContinue cb (map fst (pluginsMap st)) (st, []) =
              Inr (None, st1, nodeList) \<and>
            loadPlugins_fill st1 (pluginsMap st1) nodeList = Inr nodeList' \<and>
            topologicalSort fuel nodeList' = Inr (False, order)"
  note c = conjunct1[OF a]
  note f = conjunct1[OF conjunct2[OF a]]
  note s = conjunct2[OF conjunct2[OF a]]
  from loadPlugins_sorted[OF assms c f s]
  show r: "respects_dependencies (st1\<lparr>loadOrderList := order\<rparr>)"
    by (simp add: respects_dependencies_def)
  fix st3
  assume "loadPluginsInOrder e order (st1\<lparr>loadOrderList := order\<rparr>) = Inr st3"
  from loadPluginsInOrder_respects[OF r this]
  show "loadOrderList st3 = order" "respects_dependencies st3" by simp_all
next
  fix st'
  assume "loadPlugins fuel e tryToContinue cb st = Inr (SUCCESS, st')"
  from loadPlugins_success_order[OF assms this]
  show "respects_dependencies st'" unfolding respects_dependencies_def .
qed

theorem loadPlugins_order_respects_dependencies_witness:
  "distinct (map fst (pluginsMap ex_main)) \<and>
   loadPlugins 10 ex_env True True ex_main = Inr (SUCCESS, ex_loaded) \<and>
   loadOrderList ex_loaded = [''A'', ''B''] \<and>
   (\<exists>p. map_of (pluginsMap ex_loaded) ''B'' = Some p \<and>
        map dep_name (dependencies (info p)) = [''A'']) \<and>
   precedes ''A'' ''B'' (loadOrderList ex_loaded) \<and>
   (\<exists>st1 nodeList nodeList'.
      loadPlugins_check 10 ex_env True True (map fst (pluginsMap ex_main)) (ex_main, []) =
        Inr (None, st1, nodeList) \<and>
      loadPlugins_fill st1 (pluginsMap st1) nodeList = Inr nodeList' \<and>
      topologicalSort 10 nodeList' = Inr (False, [''A'', ''B'']) \<and>
      respects_dependencies (st1\<lparr>loadOrderList := [''A'', ''B'']\<rparr>))"
proof -
  let ?q = "the (map_of (pluginsMap ex_loaded) ''B'')"
  let ?c = "loadPlugins_check 10 ex_env True True (map fst (pluginsMap ex_main)) (ex_main, [])"
  let ?st1 = "fst (snd (projr ?c))"
  let ?nl = "snd (snd (projr ?c))"
  let ?nl' = "projr (loadPlugins_fill ?st1 (pluginsMap ?st1) ?nl)"
  have a: "distinct (map fst (pluginsMap ex_main))" by code_simp
  have b: "loadPlugins 10 ex_env True True ex_main = Inr (SUCCESS, ex_loaded)" by code_simp
  have c: "loadOrderList ex_loaded = [''A'', ''B'']" by code_simp
  have d: "map_of (pluginsMap ex_loaded) ''B'' = Some ?q" by code_simp
  have e: "map dep_name (dependencies (info ?q)) = [''A'']" by code_simp
  have k1: "?c = Inr (None, ?st1, ?nl)" by code_simp
  have k2: "loadPlugins_fill ?st1 (pluginsMap ?st1) ?nl = Inr ?nl'" by code_simp
  have k3: "topologicalSort 10 ?nl' = Inr (False, [''A'', ''B''])" by code_simp
  note main = loadPlugins_order_respects_dependencies[OF a, of 10 ex_env True True]
  from conjunct2[OF main, rule_format, OF b] have r: "respects_dependencies ex_loaded" .
  then have "\<forall>P \<in> set (loadOrderList ex_loaded). \<exists>p. map_of (pluginsMap ex_loaded) P = Some p \<and>
          (\<forall>d \<in> set (dependencies (info p)). precedes (dep_name d) P (loadOrderList ex_loaded))"
    unfolding respects_dependencies_def by (rule conjunct2)
  moreover have "''B'' \<in> set (loadOrderList ex_loaded)" unfolding c by simp
  ultimately have "\<exists>p. map_of (pluginsMap ex_loaded) ''B'' = Some p \<and>
          (\<forall>d \<in> set (dependencies (info p)). precedes (dep_name d) ''B'' (loadOrderList ex_loaded))"
    by (rule bspec)
  then obtain p where p: "map_of (pluginsMap ex_loaded) ''B'' = Some p"
    and pd: "\<forall>d \<in> set (dependencies (info p)). precedes (dep_name d) ''B'' (loadOrderList ex_loaded)"
    by (elim exE conjE)
  from p d have pq: "p = ?q" by simp
  have "''A'' \<in> set (map dep_name (dependencies (info p)))" unfolding pq e by simp
  then obtain d0 where d0: "d0 \<in> set (dependencies (info p))" "dep_name d0 = ''A''"
    by auto
  from bspec[OF pd d0(1)] have f: "precedes ''A'' ''B'' (loadOrderList ex_loaded)"
    unfolding d0(2) .
  have g: "\<exists>p. map_of (pluginsMap ex_loaded) ''B'' = Some p \<and>
        map dep_name (dependencies (info p)) = [''A'']"
    using d e by (intro exI[of _ ?q] conjI)
  have k: "?c = Inr (None, ?st1, ?nl) \<and>
           loadPlugins_fill ?st1 (pluginsMap ?st1) ?nl = Inr ?nl' \<and>
           topologicalSort 10 ?nl' = Inr (False, [''A'', ''B''])"
    using k1 k2 k3 by (intro conjI)
  have "respects_dependencies (?st1\<lparr>loadOrderList := [''A'', ''B'']\<rparr>)"
    using conjunct1[OF main, rule_format, OF k] by (rule conjunct1)
  with k1 k2 k3 have h: "\<exists>st1 nodeList nodeList'.
      loadPlugins_check 10 ex_env True True (map fst (pluginsMap ex_main)) (ex_main, []) =
        Inr (None, st1, nodeList) \<and>
      loadPlugins_fill st1 (pluginsMap st1) nodeList = Inr nodeList' \<and>
      topologicalSort 10 nodeList' = Inr (False, [''A'', ''B'']) \<and>
      respects_dependencies (st1\<lparr>loadOrderList := [''A'', ''B'']\<rparr>)"
    by (intro exI[of _ ?st1] exI[of _ ?nl] exI[of _ ?nl'] conjI)
  from a b c g f h show ?thesis by (intro conjI)
qed

lemma loadPlugins_then_live:
  assumes "loadPlugins fuel e ttc cb st0 = Inr (SUCCESS, st)"
  shows "\<exists>t. trace st = trace st0 @ t \<and> (\<forall>n \<in> set (loadOrderList st). live st n) \<and>
             loaded_calls t = [IPlugin lp. n \<leftarrow> loadOrderList st, Some (Some lp) \<leftarrow> [field_of lib st n]]"
proof (rule loadPlugins_success[OF assms])
  fix st1 :: PlugMgrPrivate and nodeList nodeList' :: "Node list" and order st3
  let ?st2 = "st1\<lparr>loadOrderList := order\<rparr>"
  assume c: "loadPlugins_check fuel e ttc cb (map fst (pluginsMap st0)) (st0, []) =
               Inr (None, st1, nodeList)"
    and l: "loadPluginsInOrder e order ?st2 = Inr st3"
    and e: "st = st3 \<or> (\<exists>obj. st = st3\<lparr>trace := trace st3 @ [MainPluginExec obj]\<rparr>)"
  have "keeps (\<lambda>p. ()) st0 st1"
    by (rule loadPlugins_check_keeps[OF _ _ c]) simp_all
  then obtain tc where tc: "trace st1 = trace st0 @ tc" "loaded_calls tc = []"
    unfolding keeps_def by blast
  from loadPluginsInOrder_trace[OF l] obtain tl where
    tl: "trace st3 = trace ?st2 @ tl"
        "loaded_calls tl = [IPlugin lp. n \<leftarrow> order, Some (Some lp) \<leftarrow> [field_of lib ?st2 n]]"
    by blast
  have fr: "map (\<lambda>kp. (fst kp, lib (snd kp))) (pluginsMap st3) =
            map (\<lambda>kp. (fst kp, lib (snd kp))) (pluginsMap ?st2)"
    and lo: "loadOrderList st3 = loadOrderList ?st2"
    using loadPluginsInOrder_frame[OF _ l, of lib] by simp_all
  have same: "pluginsMap st = pluginsMap st3 \<and> loadOrderList st = loadOrderList st3"
    using e
  proof
    assume "st = st3"
    then show ?thesis by simp
  next
    assume "\<exists>obj. st = st3\<lparr>trace := trace st3 @ [MainPluginExec obj]\<rparr>"
    then obtain obj where "st = st3\<lparr>trace := trace st3 @ [MainPluginExec obj]\<rparr>" ..
    then show ?thesis by simp
  qed
  then have pm: "pluginsMap st = pluginsMap st3" and lo': "loadOrderList st = order"
    using lo by simp_all
  have fl3: "field_of lib st3 = field_of lib ?st2"
    using view_field[OF fr] .
  have fl: "field_of lib st = field_of lib ?st2"
  proof
    fix k
    from fun_cong[OF fl3, of k] show "field_of lib st k = field_of lib ?st2 k"
      by (simp add: field_of_def pm)
  qed
  have lv: "\<forall>n \<in> set order. live st n"
    using loadPluginsInOrder_live[OF l] pm by (simp add: live_def)
  from e obtain tm where tm: "trace st = trace st3 @ tm" "loaded_calls tm = []"
  proof
    assume "st = st3"
    then have "trace st = trace st3 @ []" "loaded_calls [] = []" by (simp_all add: loaded_calls_def)
    then show ?thesis by (rule that)
  next
    assume "\<exists>obj. st = st3\<lparr>trace := trace st3 @ [MainPluginExec obj]\<rparr>"
    then obtain obj where "st = st3\<lparr>trace := trace st3 @ [MainPluginExec obj]\<rparr>" ..
    then have "trace st = trace st3 @ [MainPluginExec obj]" "loaded_calls [MainPluginExec obj] = []"
      by (simp_all add: loaded_calls_def)
    then show ?thesis by (rule that)
  qed
  have 1: "trace st = trace st0 @ (tc @ tl @ tm)" using tc tl tm by simp
  have 2: "loaded_calls (tc @ tl @ tm) =
           [IPlugin lp. n \<leftarrow> loadOrderList st, Some (Some lp) \<leftarrow> [field_of lib st n]]"
    using tc(2) tl(2) tm(2) by (simp add: loaded_calls_append fl lo')
  from 1 2 lv lo' show ?thesis by blast
qed

lemma live_calls:
  "\<forall>n \<in> set xs. live st n \<Longrightarrow>
   [AboutToBeUnloaded obj. n \<leftarrow> xs, Some p \<leftarrow> [map_of (pluginsMap st) n], Some obj \<leftarrow> [iplugin p]] =
     map (\<lambda>n. AboutToBeUnloaded (IPlugin (the (the (field_of lib st n))))) xs \<and>
   [IPlugin lp. n \<leftarrow> xs, Some (Some lp) \<leftarrow> [field_of lib st n]] =
     map (\<lambda>n. IPlugin (the (the (field_of lib st n)))) xs"
proof (induction xs)
  case Nil
  then show ?case by simp
next
  case (Cons n xs)
  from Cons.prems obtain p lp where
    "map_of (pluginsMap st) n = Some p" "lib p = Some lp" "iplugin p = Some (IPlugin lp)"
    unfolding live_def by auto
  with Cons show ?case by (simp add: field_of_def)
qed

lemma unload_calls_of_live:
  assumes "\<forall>n \<in> set xs. live st n"
  shows "[AboutToBeUnloaded obj. n \<leftarrow> rev xs, Some p \<leftarrow> [map_of (pluginsMap st) n],
            Some obj \<leftarrow> [iplugin p]] =
         map AboutToBeUnloaded (rev [IPlugin lp. n \<leftarrow> xs, Some (Some lp) \<leftarrow> [field_of lib st n]])"
proof -
  have r: "\<forall>n \<in> set (rev xs). live st n" using assms by simp
  show ?thesis
    unfolding conjunct1[OF live_calls[OF r]] conjunct2[OF live_calls[OF assms]]
    by (simp add: rev_map)
qed

section \<open>Unloading after loading\<close>

text \<open>
  When \<open>unloadPlugins\<close> returns, the calls it has added to the trace are:
  \<^verbatim>\<open>aboutToBeUnloaded()\<close> on the object of every record of the stored load order that
  has one, in the reverse of the load order; only then \<^verbatim>\<open>aboutToBeUnloaded()\<close> on the
  objects of the records that are not in the load order, in the iteration order of the
  map; and last the callback, if some library stayed open. When the state is the one a
  call of \<open>loadPlugins\<close> has returned with \<open>SUCCESS\<close>, the calls of the first group are
  the calls of \<^verbatim>\<open>loaded()\<close> of that call, on the same objects, reversed.
\<close>

lemma unloadPlugins_calls:
  assumes "unloadPlugins e cb st = Inr (rc, st')"
  shows "(\<exists>t. trace st' = trace st @
            [AboutToBeUnloaded obj. n \<leftarrow> rev (loadOrderList st), Some p \<leftarrow> [map_of (pluginsMap st) n],
               Some obj \<leftarrow> [iplugin p]] @
            [AboutToBeUnloaded obj. (k, p) \<leftarrow> pluginsMap st, k \<notin> set (loadOrderList st),
               Some obj \<leftarrow> [iplugin p]] @ t \<and>
            (t = [] \<or> t = [Callback UNLOAD_NOT_ALL None])) \<and>
         (\<forall>fuel e0 tryToContinue cb0 st0.
            loadPlugins fuel e0 tryToContinue cb0 st0 = Inr (SUCCESS, st) \<longrightarrow>
            (\<exists>t0. trace st = trace st0 @ t0 \<and>
               [AboutToBeUnloaded obj. n \<leftarrow> rev (loadOrderList st), Some p \<leftarrow> [map_of (pluginsMap st) n],
                  Some obj \<leftarrow> [iplugin p]] =
               map AboutToBeUnloaded (rev (loaded_calls t0))))"
proof (rule conjI)
  define X where "X = [AboutToBeUnloaded obj. n \<leftarrow> rev (loadOrderList st), Some p \<leftarrow> [map_of (pluginsMap st) n],
               Some obj \<leftarrow> [iplugin p]]"
  define Y where "Y = [AboutToBeUnloaded obj. (k, p) \<leftarrow> pluginsMap st, k \<notin> set (loadOrderList st),
               Some obj \<leftarrow> [iplugin p]]"
  from assms obtain ok s where u: "unloadPluginsInOrder e st = Inr (ok, s)"
    and s: "st' = s \<or> st' = invoke cb UNLOAD_NOT_ALL None s"
    by (auto simp: unloadPlugins_def split: sum.splits if_splits)
  have ts: "trace s = trace st @ X @ Y"
    unfolding X_def Y_def by (rule unloadPluginsInOrder_calls[OF u])
  have "trace st' = trace s @ [] \<or> trace st' = trace s @ [Callback UNLOAD_NOT_ALL None]"
    using s by (cases cb) (auto simp: invoke_def)
  then have "\<exists>t. trace st' = trace st @ X @ Y @ t \<and> (t = [] \<or> t = [Callback UNLOAD_NOT_ALL None])"
  proof
    assume "trace st' = trace s @ []"
    then have "trace st' = trace st @ X @ Y @ []" unfolding ts by simp
    then show ?thesis by blast
  next
    assume "trace st' = trace s @ [Callback UNLOAD_NOT_ALL None]"
    then have "trace st' = trace st @ X @ Y @ [Callback UNLOAD_NOT_ALL None]" unfolding ts by simp
    then show ?thesis by blast
  qed
  then show "\<exists>t. trace st' = trace st @
            [AboutToBeUnloaded obj. n \<leftarrow> rev (loadOrderList st), Some p \<leftarrow> [map_of (pluginsMap st) n],
               Some obj \<leftarrow> [iplugin p]] @
            [AboutToBeUnloaded obj. (k, p) \<leftarrow> pluginsMap st, k \<notin> set (loadOrderList st),
               Some obj \<leftarrow> [iplugin p]] @ t \<and>
            (t = [] \<or> t = [Callback UNLOAD_NOT_ALL None])"
    unfolding X_def Y_def .
next
  let ?X = "[AboutToBeUnloaded obj. n \<leftarrow> rev (loadOrderList st), Some p \<leftarrow> [map_of (pluginsMap st) n],
               Some obj \<leftarrow> [iplugin p]]"
  show "\<forall>fuel e0 tryToContinue cb0 st0.
          loadPlugins fuel e0 tryToContinue cb0 st0 = Inr (SUCCESS, st) \<longrightarrow>
          (\<exists>t0. trace st = trace st0 @ t0 \<and> ?X = map AboutToBeUnloaded (rev (loaded_calls t0)))"
  proof (intro allI impI)
    fix fuel e0 tryToContinue cb0 st0
    assume l: "loadPlugins fuel e0 tryToContinue cb0 st0 = Inr (SUCCESS, st)"
    from loadPlugins_then_live[OF l] obtain t0 where
      t: "trace st = trace st0 @ t0"
      and lv: "\<forall>n \<in> set (loadOrderList st). live st n"
      and lc: "loaded_calls t0 =
                 [IPlugin lp. n \<leftarrow> loadOrderList st, Some (Some lp) \<leftarrow> [field_of lib st n]]"
      by (elim exE conjE)
    have "?X = map AboutToBeUnloaded (rev (loaded_calls t0))"
      unfolding lc by (rule unload_calls_of_live[OF lv])
    with t show "\<exists>t0. trace st = trace st0 @ t0 \<and> ?X = map AboutToBeUnloaded (rev (loaded_calls t0))"
      by (intro exI[of _ t0] conjI)
  qed
qed

text \<open>
  C2. Plugins are searched, loaded and unloaded, and \<open>/dup\<close> is searched: the map holds
  the record \<open>E\<close>, which is not in the load order, and the load order still holds \<open>A\<close>
  and \<open>B\<close>, which are not in the map. The next \<open>unloadPlugins\<close> starts with \<open>B\<close>:
  \<^verbatim>\<open>pluginsMap[*it]\<close> is a null pointer, which \<^verbatim>\<open>unloadPlugin\<close> dereferences. The call
  ends there: it never reaches the loop that drains the records outside the load order.
\<close>

theorem unloadPlugins_stale_order_never_drains:
  "loadPlugins 10 ex_env True True ex_main = Inr (SUCCESS, ex_loaded) \<and>
   unloadPlugins ex_env True ex_loaded = Inr (SUCCESS, ex_unloaded) \<and>
   searchForPlugins ex_env ''/dup'' False True ex_unloaded = (SUCCESS, ex_stale) \<and>
   loadOrderList ex_stale = [''A'', ''B''] \<and>
   map fst (pluginsMap ex_stale) = [''E''] \<and>
   map_of (pluginsMap ex_stale) ''B'' = None \<and>
   unloadPluginsInOrder_loop ex_env (rev (loadOrderList ex_stale)) (ex_stale, True) = Inl NullDeref \<and>
   unloadPluginsInOrder ex_env ex_stale = Inl NullDeref \<and>
   unloadPlugins ex_env True ex_stale = Inl NullDeref"
  by code_simp

end
